theory Spec2Isabelle
  imports Complex_Main "HOL-Library.List_Lexorder"
begin

section \<open>JavaScript strings and containers\<close>

text \<open>
  A JavaScript string is a sequence of UTF-16 code units; a code unit is a natural
  number here. \<open>js\<close> turns a literal into its code units.
\<close>

type_synonym jstring = "nat list"

abbreviation js :: "string \<Rightarrow> jstring" where
  "js s \<equiv> map of_char s"

datatype js_error = TypeError | InvalidCharacterError

text \<open>
  A JavaScript \<open>Map\<close> iterates in insertion order, and \<open>evictLRU\<close> depends on that
  order (its sort is stable), so a \<open>Map\<close> is an association list in insertion order.
  \<open>Map.set\<close> replaces the value of a key that is present where it stands and appends a
  key that is absent; \<open>Map.delete\<close> removes the key.
\<close>

fun Map_get :: "('k \<times> 'e) list \<Rightarrow> 'k \<Rightarrow> 'e option" where
  "Map_get [] k = None"
| "Map_get ((k', e) # rest) k = (if k' = k then Some e else Map_get rest k)"

fun Map_set :: "'k \<Rightarrow> 'e \<Rightarrow> ('k \<times> 'e) list \<Rightarrow> ('k \<times> 'e) list" where
  "Map_set k e [] = [(k, e)]"
| "Map_set k e ((k', e') # rest) =
     (if k' = k then (k, e) # rest else (k', e') # Map_set k e rest)"

definition Map_delete :: "'k \<Rightarrow> ('k \<times> 'e) list \<Rightarrow> ('k \<times> 'e) list" where
  "Map_delete k m = filter (\<lambda>p. fst p \<noteq> k) m"

text \<open>\<open>String.prototype.includes\<close>: the argument occurs somewhere in the string.\<close>

fun String_includes :: "jstring \<Rightarrow> jstring \<Rightarrow> bool" where
  "String_includes [] sub = (sub = [])"
| "String_includes (c # cs) sub = (take (length sub) (c # cs) = sub \<or> String_includes cs sub)"

fun Array_join :: "jstring \<Rightarrow> jstring list \<Rightarrow> jstring" where
  "Array_join sep [] = []"
| "Array_join sep [x] = x"
| "Array_join sep (x # y # ys) = x @ sep @ Array_join sep (y # ys)"

section \<open>JSON text and \<open>btoa\<close>\<close>

text \<open>
  The values \<open>JSON.stringify\<close> is applied to. Numbers are the integers, written in
  decimal (as JavaScript writes them below \<open>10^21\<close>); \<open>JUndefined\<close> stands for every value that has no JSON text (\<open>undefined\<close>,
  functions, symbols). An object lists its own properties in insertion order.
\<close>

datatype json =
    JUndefined | JNull | JBool bool | JNum int | JStr jstring
  | JArr "json list" | JObj "(jstring \<times> json) list"

definition hex_digit :: "nat \<Rightarrow> nat" where
  "hex_digit d = (if d < 10 then 48 + d else 87 + d)"

definition unicode_escape :: "nat \<Rightarrow> jstring" where
  "unicode_escape c =
     [92, 117, hex_digit (c div 4096 mod 16), hex_digit (c div 256 mod 16),
      hex_digit (c div 16 mod 16), hex_digit (c mod 16)]"

definition is_lead :: "nat \<Rightarrow> bool" where
  "is_lead c = (55296 \<le> c \<and> c \<le> 56319)"

definition is_trail :: "nat \<Rightarrow> bool" where
  "is_trail c = (56320 \<le> c \<and> c \<le> 57343)"

text \<open>
  \<open>QuoteJSONString\<close>: the two-character escapes (92 is the backslash, 34 the double
  quote), \<open>\uXXXX\<close> for the other control characters and for a surrogate that is not
  part of a pair, and every other code unit as it is.
\<close>

fun quote_units :: "jstring \<Rightarrow> jstring" where
  "quote_units [] = []"
| "quote_units (c # cs) =
     (if c = 8 then [92, 98] @ quote_units cs
      else if c = 9 then [92, 116] @ quote_units cs
      else if c = 10 then [92, 110] @ quote_units cs
      else if c = 12 then [92, 102] @ quote_units cs
      else if c = 13 then [92, 114] @ quote_units cs
      else if c = 34 then [92, 34] @ quote_units cs
      else if c = 92 then [92, 92] @ quote_units cs
      else if c < 32 then unicode_escape c @ quote_units cs
      else if is_lead c then
        (case cs of
           [] \<Rightarrow> unicode_escape c
         | d # ds \<Rightarrow> if is_trail d then c # d # quote_units ds
                     else unicode_escape c @ quote_units cs)
      else if is_trail c then unicode_escape c @ quote_units cs
      else c # quote_units cs)"

definition QuoteJSONString :: "jstring \<Rightarrow> jstring" where
  "QuoteJSONString s = [34] @ quote_units s @ [34]"

fun digits :: "nat \<Rightarrow> jstring" where
  "digits n = (if n < 10 then [48 + n] else digits (n div 10) @ [48 + n mod 10])"

declare digits.simps [simp del]

definition Number_toString :: "int \<Rightarrow> jstring" where
  "Number_toString i = (if i < 0 then 45 # digits (nat (- i)) else digits (nat i))"

text \<open>
  \<open>SerializeJSONProperty\<close> with the property list \<open>K\<close> of an array replacer
  (\<open>None\<close> when \<open>JSON.stringify\<close> is called without a replacer). With a property list, an
  object at any depth writes the listed keys only, in the list's order, and leaves out a
  key whose value is absent or has no JSON text; an array writes \<open>null\<close> for such a
  value.
\<close>

fun SerializeJSONProperty :: "jstring list option \<Rightarrow> json \<Rightarrow> jstring option" where
  "SerializeJSONProperty K JUndefined = None"
| "SerializeJSONProperty K JNull = Some (js ''null'')"
| "SerializeJSONProperty K (JBool b) = Some (if b then js ''true'' else js ''false'')"
| "SerializeJSONProperty K (JNum i) = Some (Number_toString i)"
| "SerializeJSONProperty K (JStr s) = Some (QuoteJSONString s)"
| "SerializeJSONProperty K (JArr vs) =
     Some (js ''['' @
           Array_join (js '','')
             (map (\<lambda>v. case SerializeJSONProperty K v of None \<Rightarrow> js ''null'' | Some s \<Rightarrow> s) vs) @
           js '']'')"
| "SerializeJSONProperty K (JObj props) =
     (let strs = map (\<lambda>p. (fst p, SerializeJSONProperty K (snd p))) props;
          keys = (case K of None \<Rightarrow> map fst props | Some ks \<Rightarrow> ks);
          partial = List.map_filter
             (\<lambda>P. case Map_get strs P of
                     None \<Rightarrow> None
                   | Some None \<Rightarrow> None
                   | Some (Some strP) \<Rightarrow> Some (QuoteJSONString P @ js '':'' @ strP)) keys
      in Some (js ''{'' @ Array_join (js '','') partial @ js ''}''))"

definition JSON_stringify :: "json \<Rightarrow> jstring option" where
  "JSON_stringify v = SerializeJSONProperty None v"

text \<open>
  \<open>btoa\<close> encodes a string of code units below 256 in base64, and raises
  \<open>InvalidCharacterError\<close> on any other string.
\<close>

definition b64_char :: "nat \<Rightarrow> nat" where
  "b64_char i =
     (if i < 26 then 65 + i else if i < 52 then 71 + i else if i < 62 then i - 4
      else if i = 62 then 43 else 47)"

fun b64 :: "nat list \<Rightarrow> nat list" where
  "b64 (a # b # c # rest) =
     [b64_char (a div 4), b64_char ((a mod 4) * 16 + b div 16),
      b64_char ((b mod 16) * 4 + c div 64), b64_char (c mod 64)] @ b64 rest"
| "b64 [a, b] =
     [b64_char (a div 4), b64_char ((a mod 4) * 16 + b div 16), b64_char ((b mod 16) * 4), 61]"
| "b64 [a] = [b64_char (a div 4), b64_char ((a mod 4) * 16), 61, 61]"
| "b64 [] = []"

definition btoa :: "jstring \<Rightarrow> js_error + jstring" where
  "btoa s = (if list_ex (\<lambda>u. u > 255) s then Inl InvalidCharacterError else Inr (b64 s))"

section \<open>The cache key: \<open>generateCacheKey\<close>\<close>

text \<open>
  The options object is the list of its properties. \<open>cache_key_text\<close> is the template
  string \<open>provider:prompt:optionsString\<close> that the source hands to \<open>btoa\<close>, with
  \<open>optionsString = JSON.stringify(options, Object.keys(options).sort())\<close>; the default
  sort compares strings by code units.
\<close>

definition Object_keys :: "(jstring \<times> json) list \<Rightarrow> jstring list" where
  "Object_keys obj = map fst obj"

definition cache_key_text :: "jstring \<Rightarrow> jstring \<Rightarrow> (jstring \<times> json) list \<Rightarrow> jstring" where
  "cache_key_text provider prompt options =
     (let optionsString =
            (case SerializeJSONProperty (Some (sort (Object_keys options))) (JObj options) of
               None \<Rightarrow> js ''undefined'' | Some s \<Rightarrow> s)
      in provider @ js '':'' @ prompt @ js '':'' @ optionsString)"

definition generateCacheKey ::
  "jstring \<Rightarrow> jstring \<Rightarrow> (jstring \<times> json) list \<Rightarrow> js_error + jstring" where
  "generateCacheKey provider prompt options =
     (case btoa (cache_key_text provider prompt options) of
        Inl e \<Rightarrow> Inl e
      | Inr hash \<Rightarrow> Inr (js ''ai:'' @ take 32 hash))"

section \<open>The cache: \<open>createCache\<close>\<close>

text \<open>
  \<open>CacheEntry\<close> has the fields the source writes in \<open>set\<close>. Timestamps and durations
  are integers of milliseconds (\<open>Date.now()\<close>); sizes are lengths of strings. The counter
  \<open>currentSize\<close> is an integer because the source subtracts from it without a check.
  Every operation reads the clock; the reading is the argument \<open>now\<close>, one per call of
  an operation.
\<close>

record 'v CacheEntry =
  data :: 'v
  timestamp :: int
  ttl :: int
  key :: jstring
  size_e :: int

record 'v cache_state =
  cache :: "(jstring \<times> 'v CacheEntry) list"
  currentSize :: int

definition createCache :: "'v cache_state" where
  "createCache = \<lparr>cache = [], currentSize = 0\<rparr>"

definition isExpired :: "int \<Rightarrow> 'v CacheEntry \<Rightarrow> bool" where
  "isExpired now entry = (now > timestamp entry + ttl entry)"

text \<open>
  \<open>cleanup\<close> walks the entries of the map and, for each expired one, subtracts its size
  and deletes its key.
\<close>

fun cleanup_loop :: "int \<Rightarrow> (jstring \<times> 'v CacheEntry) list \<Rightarrow> 'v cache_state \<Rightarrow> 'v cache_state" where
  "cleanup_loop now [] st = st"
| "cleanup_loop now ((k, entry) # rest) st =
     cleanup_loop now rest
       (if now > timestamp entry + ttl entry
        then st\<lparr>currentSize := currentSize st - size_e entry,
                cache := Map_delete k (cache st)\<rparr>
        else st)"

definition cleanup :: "int \<Rightarrow> 'v cache_state \<Rightarrow> 'v cache_state" where
  "cleanup now st = cleanup_loop now (cache st) st"

text \<open>
  \<open>evictLRU\<close> sorts the entries by timestamp (a stable sort, as \<open>Array.prototype.sort\<close>
  is) and removes the first of them, if there is one.
\<close>

definition evictLRU :: "'v cache_state \<Rightarrow> 'v cache_state" where
  "evictLRU st =
     (case sort_key (\<lambda>p. timestamp (snd p)) (cache st) of
        [] \<Rightarrow> st
      | (k, entry) # _ \<Rightarrow>
          st\<lparr>currentSize := currentSize st - size_e entry,
             cache := Map_delete k (cache st)\<rparr>)"

definition get :: "int \<Rightarrow> jstring \<Rightarrow> 'v cache_state \<Rightarrow> 'v option \<times> 'v cache_state" where
  "get now k st =
     (case Map_get (cache st) k of
        None \<Rightarrow> (None, st)
      | Some entry \<Rightarrow>
          if isExpired now entry
          then (None, st\<lparr>currentSize := currentSize st - size_e entry,
                         cache := Map_delete k (cache st)\<rparr>)
          else (Some (data entry),
                st\<lparr>cache := Map_set k (entry\<lparr>timestamp := now\<rparr>) (cache st)\<rparr>))"

text \<open>
  The eviction loop of \<open>set\<close>:
  \<open>while (currentSize + size > maxSize && cache.size > 0) evictLRU()\<close>.
  It ends because every round removes an entry.
\<close>

function evict_loop :: "int \<Rightarrow> int \<Rightarrow> 'v cache_state \<Rightarrow> 'v cache_state" where
  "evict_loop maxSize sz st =
     (if currentSize st + sz > maxSize \<and> cache st \<noteq> []
      then evict_loop maxSize sz (evictLRU st)
      else st)"
  by pat_completeness auto
termination
proof (relation "measure (\<lambda>(m, s, st). length (cache st))")
  fix maxSize sz :: int and st :: "'v cache_state"
  assume "currentSize st + sz > maxSize \<and> cache st \<noteq> []"
  then have ne: "cache st \<noteq> []" by simp
  let ?s = "sort_key (\<lambda>p. timestamp (snd p)) (cache st)"
  from ne have "?s \<noteq> []" by (metis length_0_conv length_sort)
  then obtain k e r where s: "?s = (k, e) # r" by (cases ?s) auto
  have "(k, e) \<in> set ?s" by (simp add: s)
  then have mem: "(k, e) \<in> set (cache st)" by simp
  have "length (filter (\<lambda>p. fst p \<noteq> k) (cache st)) < length (cache st)"
    using mem by (intro length_filter_less[of "(k, e)"]) auto
  then have "length (cache (evictLRU st)) < length (cache st)"
    by (simp add: evictLRU_def s Map_delete_def)
  then show "((maxSize, sz, evictLRU st), (maxSize, sz, st))
               \<in> measure (\<lambda>(m, s, st). length (cache st))" by simp
qed simp

declare evict_loop.simps [simp del]

text \<open>
  \<open>set\<close> sweeps the expired entries, measures \<open>JSON.stringify(data).length\<close>, evicts, and
  stores the entry. \<open>JSON.stringify\<close> is the argument \<open>stringify\<close>; it yields no string
  (\<open>undefined\<close>) for a value that has no JSON text, and reading \<open>.length\<close> of that raises
  a \<open>TypeError\<close> after the sweep has been done.
\<close>

definition set_c ::
  "('v \<Rightarrow> jstring option) \<Rightarrow> int \<Rightarrow> int \<Rightarrow> jstring \<Rightarrow> 'v \<Rightarrow> int \<Rightarrow> 'v cache_state
     \<Rightarrow> (js_error + unit) \<times> 'v cache_state" where
  "set_c stringify maxSize now k v ttl_ms st =
     (let st1 = cleanup now st in
      case stringify v of
        None \<Rightarrow> (Inl TypeError, st1)
      | Some s \<Rightarrow>
          let sz = int (length s);
              st2 = evict_loop maxSize sz st1;
              entry = \<lparr>data = v, timestamp = now, ttl = ttl_ms, key = k, size_e = sz\<rparr>
          in (Inr (), st2\<lparr>cache := Map_set k entry (cache st2),
                          currentSize := currentSize st2 + sz\<rparr>))"

definition del :: "jstring \<Rightarrow> 'v cache_state \<Rightarrow> bool \<times> 'v cache_state" where
  "del k st =
     (case Map_get (cache st) k of
        Some entry \<Rightarrow> (True, st\<lparr>currentSize := currentSize st - size_e entry,
                                cache := Map_delete k (cache st)\<rparr>)
      | None \<Rightarrow> (False, st))"

definition clear :: "'v cache_state \<Rightarrow> 'v cache_state" where
  "clear st = st\<lparr>cache := [], currentSize := 0\<rparr>"

text \<open>A sequence of cache operations, each with the clock reading at which it runs.\<close>

datatype 'v cache_op = Get jstring | Set jstring 'v int | Del jstring | Clear | Cleanup

fun step :: "('v \<Rightarrow> jstring option) \<Rightarrow> int \<Rightarrow> int \<times> 'v cache_op \<Rightarrow> 'v cache_state \<Rightarrow> 'v cache_state" where
  "step stringify maxSize (now, Get k) st = snd (get now k st)"
| "step stringify maxSize (now, Set k v t) st = snd (set_c stringify maxSize now k v t st)"
| "step stringify maxSize (now, Del k) st = snd (del k st)"
| "step stringify maxSize (now, Clear) st = clear st"
| "step stringify maxSize (now, Cleanup) st = cleanup now st"

fun run :: "('v \<Rightarrow> jstring option) \<Rightarrow> int \<Rightarrow> (int \<times> 'v cache_op) list \<Rightarrow> 'v cache_state \<Rightarrow> 'v cache_state" where
  "run stringify maxSize [] st = st"
| "run stringify maxSize (x # ops) st = run stringify maxSize ops (step stringify maxSize x st)"

text \<open>The sum of the sizes of the entries that are in the map.\<close>

definition sizes :: "(jstring \<times> 'v CacheEntry) list \<Rightarrow> int" where
  "sizes m = sum_list (map (\<lambda>p. size_e (snd p)) m)"

definition live_size :: "'v cache_state \<Rightarrow> int" where
  "live_size st = sizes (cache st)"

section \<open>The retry handler: \<open>createRetryHandler\<close>\<close>

text \<open>
  What an operation can throw: a falsy value (\<open>undefined\<close>, \<open>null\<close>, \<open>0\<close>, the empty string),
  or a value whose properties \<open>code\<close>, \<open>statusCode\<close> and \<open>message\<close> are read by
  \<open>isRetryableError\<close>. A property is \<open>None\<close> when it is absent; \<open>code\<close> and \<open>message\<close> are
  strings and \<open>statusCode\<close> an integer when they are present.
\<close>

datatype thrown =
    JsUndefined
  | JsFalsy
  | ErrObj (code: "jstring option") (statusCode: "int option") (message: "jstring option")

definition retryableCodes :: "jstring list" where
  "retryableCodes =
     [js ''ECONNRESET'', js ''ENOTFOUND'', js ''ECONNREFUSED'', js ''ETIMEDOUT'',
      js ''RATE_LIMITED'', js ''SERVER_ERROR'', js ''TIMEOUT'']"

definition retryableStatusCodes :: "int list" where
  "retryableStatusCodes = [429, 500, 502, 503, 504]"

fun isRetryableError :: "thrown \<Rightarrow> bool" where
  "isRetryableError JsUndefined = False"
| "isRetryableError JsFalsy = False"
| "isRetryableError (ErrObj c sc m) =
     ((case c of None \<Rightarrow> False | Some c' \<Rightarrow> c' \<in> set retryableCodes) \<or>
      (case sc of None \<Rightarrow> False | Some n \<Rightarrow> n \<in> set retryableStatusCodes) \<or>
      (case m of None \<Rightarrow> False | Some t \<Rightarrow> String_includes t (js ''timeout'')) \<or>
      (case m of None \<Rightarrow> False | Some t \<Rightarrow> String_includes t (js ''rate limit'')))"

text \<open>
  The parameters of \<open>createRetryHandler\<close>. Delays are real numbers: \<open>Math.random()\<close>
  yields a fraction, which is the argument \<open>random\<close> of \<open>calculateDelay\<close>
  (\<open>0 \<le> random < 1\<close>). \<open>Math.pow\<close> with an integer exponent is \<open>power_int\<close>.
\<close>

record retry_config =
  maxRetries :: int
  baseDelayMs :: real
  maxDelayMs :: real
  backoffMultiplier :: real

definition calculateDelay :: "retry_config \<Rightarrow> real \<Rightarrow> int \<Rightarrow> real" where
  "calculateDelay cfg random attempt =
     (let delay = baseDelayMs cfg * power_int (backoffMultiplier cfg) (attempt - 1);
          jitter = random * 0.1 * delay
      in min (delay + jitter) (maxDelayMs cfg))"

text \<open>
  \<open>retry\<close>: the \<open>for\<close> loop over \<open>attempt\<close>. The operation is a function of the attempt
  at which it is invoked, \<open>Inl\<close> what it throws and \<open>Inr\<close> what it resolves with;
  \<open>random\<close> gives the draw of \<open>Math.random()\<close> at each attempt. The result is what
  \<open>retry\<close> throws or returns, the number of invocations of the operation, and the delays
  it waited for, in order.
\<close>

function retry_loop ::
  "retry_config \<Rightarrow> (int \<Rightarrow> real) \<Rightarrow> (int \<Rightarrow> thrown + 'a) \<Rightarrow> int \<Rightarrow> thrown
     \<Rightarrow> (thrown + 'a) \<times> nat \<times> real list" where
  "retry_loop cfg random operation attempt lastError =
     (if attempt \<le> maxRetries cfg + 1 then
        (case operation attempt of
           Inr v \<Rightarrow> (Inr v, 1, [])
         | Inl error \<Rightarrow>
             if attempt > maxRetries cfg \<or> \<not> isRetryableError error
             then (Inl error, 1, [])
             else
               (let delay = calculateDelay cfg (random attempt) attempt;
                    (r, n, ds) = retry_loop cfg random operation (attempt + 1) error
                in (r, Suc n, delay # ds)))
      else (Inl lastError, 0, []))"
  by pat_completeness auto
termination
  by (relation "measure (\<lambda>(cfg, random, operation, attempt, lastError).
                   nat (maxRetries cfg + 2 - attempt))") auto

declare retry_loop.simps [simp del]

definition retry ::
  "retry_config \<Rightarrow> (int \<Rightarrow> real) \<Rightarrow> (int \<Rightarrow> thrown + 'a) \<Rightarrow> (thrown + 'a) \<times> nat \<times> real list" where
  "retry cfg random operation = retry_loop cfg random operation 1 JsUndefined"

section \<open>The rate limiter: \<open>createRateLimiter\<close>\<close>

text \<open>
  The state is the array \<open>requests\<close> of timestamps. Both \<open>isAllowed\<close> and
  \<open>getRateLimitInfo\<close> first shift the timestamps older than the window off its front.
\<close>

fun shift_old :: "int \<Rightarrow> int list \<Rightarrow> int list" where
  "shift_old windowStart [] = []"
| "shift_old windowStart (r # rs) =
     (if r < windowStart then shift_old windowStart rs else r # rs)"

definition isAllowed :: "int \<Rightarrow> int \<Rightarrow> int \<Rightarrow> int list \<Rightarrow> bool \<times> int list" where
  "isAllowed requestsPerMinute windowSizeMs now requests =
     (let windowStart = now - windowSizeMs;
          requests' = shift_old windowStart requests
      in (int (length requests') < requestsPerMinute, requests'))"

definition addRequest :: "int \<Rightarrow> int list \<Rightarrow> int list" where
  "addRequest now requests = requests @ [now]"

section \<open>The batch processor: \<open>createBatchProcessor\<close>\<close>

text \<open>
  A request has an id, an optional priority and a prompt. A response is the object kept
  in \<open>results\<close> under the request's id.
\<close>

record BatchRequest =
  req_id :: jstring
  priority :: "int option"
  prompt :: jstring

datatype batch_status = pending | processing | completed | failed

record BatchResponse =
  resp_id :: jstring
  status :: batch_status
  result :: "jstring option"
  error :: "jstring option"
  startTime :: "int option"
  endTime :: "int option"

text \<open>
  What a processing function rejects with: an \<open>Error\<close> with its message, or another value
  with the text \<open>String\<close> gives it. A function is an object: calling it is \<open>call\<close>, and
  \<open>props\<close> are its own enumerable properties. \<open>Object.assign\<close> copies the own enumerable
  properties of its source to its target and changes nothing else of the target.
\<close>

datatype rejection = Error jstring | NonError jstring

record fn_obj =
  call :: "BatchRequest \<Rightarrow> rejection + jstring"
  props :: "(jstring \<times> json) list"

definition Object_assign :: "fn_obj \<Rightarrow> fn_obj \<Rightarrow> fn_obj" where
  "Object_assign target source =
     target\<lparr>props := fold (\<lambda>p m. Map_set (fst p) (snd p) m) (props source) (props target)\<rparr>"

text \<open>
  The state of one batch processor. \<open>inflight\<close> is the batch whose items have called
  \<open>processRequest\<close> and wait for it inside \<open>Promise.allSettled\<close>.
\<close>

record batch_state =
  queue :: "BatchRequest list"
  results :: "(jstring \<times> BatchResponse) list"
  isProcessing :: bool
  processRequest :: fn_obj
  inflight :: "BatchRequest list"

definition createBatchProcessor :: batch_state where
  "createBatchProcessor =
     \<lparr>queue = [], results = [], isProcessing = False,
      processRequest =
        \<lparr>call = (\<lambda>request. Inl (Error (js ''processRequest function must be injected''))),
         props = []\<rparr>,
      inflight = []\<rparr>"

definition setProcessor :: "fn_obj \<Rightarrow> batch_state \<Rightarrow> batch_state" where
  "setProcessor processor st =
     st\<lparr>processRequest := Object_assign (processRequest st) processor\<rparr>"

text \<open>
  An item of a batch up to its \<open>await\<close>: the response becomes \<open>processing\<close> with its start
  time. Reading \<open>results.get(request.id)\<close> of an id that is no longer in the map raises
  inside the item and changes nothing.
\<close>

definition start_item :: "int \<Rightarrow> BatchRequest \<Rightarrow> batch_state \<Rightarrow> batch_state" where
  "start_item now request st =
     (case Map_get (results st) (req_id request) of
        None \<Rightarrow> st
      | Some response \<Rightarrow>
          st\<lparr>results := Map_set (req_id request)
                 (response\<lparr>status := processing, startTime := Some now\<rparr>) (results st)\<rparr>)"

text \<open>
  An item after its \<open>await\<close>: \<open>completed\<close> with the result, or \<open>failed\<close> with the message.
  The source writes to the response object it read before the \<open>await\<close>; the model reads
  the map again, which yields the same object as long as the id has not been submitted
  again in between.
\<close>

definition settle_item :: "int \<Rightarrow> BatchRequest \<Rightarrow> batch_state \<Rightarrow> batch_state" where
  "settle_item now request st =
     (case Map_get (results st) (req_id request) of
        None \<Rightarrow> st
      | Some response \<Rightarrow>
          (case call (processRequest st) request of
             Inr r \<Rightarrow>
               st\<lparr>results := Map_set (req_id request)
                      (response\<lparr>status := completed, result := Some r, endTime := Some now\<rparr>)
                      (results st)\<rparr>
           | Inl e \<Rightarrow>
               st\<lparr>results := Map_set (req_id request)
                      (response\<lparr>status := failed,
                                error := Some (case e of Error m \<Rightarrow> m | NonError t \<Rightarrow> t),
                                endTime := Some now\<rparr>)
                      (results st)\<rparr>))"

text \<open>
  The head of the \<open>while\<close> loop: \<open>queue.splice(0, batchSize)\<close> and the start of every
  item of the batch.
\<close>

definition start_batch :: "int \<Rightarrow> int \<Rightarrow> batch_state \<Rightarrow> batch_state" where
  "start_batch batchSize now st =
     (let batch = take (nat batchSize) (queue st);
          st1 = st\<lparr>queue := drop (nat batchSize) (queue st), inflight := batch\<rparr>
      in fold (start_item now) batch st1)"

definition processQueue :: "int \<Rightarrow> int \<Rightarrow> batch_state \<Rightarrow> batch_state" where
  "processQueue batchSize now st =
     (if isProcessing st \<or> queue st = [] then st
      else start_batch batchSize now (st\<lparr>isProcessing := True\<rparr>))"

text \<open>
  \<open>settle\<close> is the loop body once every item of the batch in flight has settled: it
  ends the drain when the queue is empty and waits for \<open>processingDelayMs\<close> otherwise;
  \<open>resume\<close> is the loop after that wait.
\<close>

definition settle :: "int \<Rightarrow> batch_state \<Rightarrow> batch_state" where
  "settle now st =
     (let st1 = fold (settle_item now) (inflight st) st;
          st2 = st1\<lparr>inflight := []\<rparr>
      in if queue st2 = [] then st2\<lparr>isProcessing := False\<rparr> else st2)"

definition resume :: "int \<Rightarrow> int \<Rightarrow> batch_state \<Rightarrow> batch_state" where
  "resume batchSize now st =
     (if queue st = [] then st\<lparr>isProcessing := False\<rparr> else start_batch batchSize now st)"

text \<open>
  \<open>addRequest\<close> of the batch processor, up to the promise it returns: the \<open>pending\<close>
  response, the push, the stable sort by descending priority (an absent priority
  counts as 0), and the start of the drain when none is running.
\<close>

definition addRequest_batch :: "int \<Rightarrow> int \<Rightarrow> BatchRequest \<Rightarrow> batch_state \<Rightarrow> batch_state" where
  "addRequest_batch batchSize now request st =
     (let response = \<lparr>resp_id = req_id request, status = pending, result = None,
                       error = None, startTime = None, endTime = None\<rparr>;
          st1 = st\<lparr>results := Map_set (req_id request) response (results st)\<rparr>;
          st2 = st1\<lparr>queue := sort_key (\<lambda>r. - (case priority r of None \<Rightarrow> 0 | Some p \<Rightarrow> p))
                                  (queue st1 @ [request])\<rparr>
      in if \<not> isProcessing st2 then processQueue batchSize now st2 else st2)"

definition getStatus :: "jstring \<Rightarrow> batch_state \<Rightarrow> BatchResponse option" where
  "getStatus i st = Map_get (results st) i"

text \<open>
  Modelled from the spec: the default of \<open>maxRetries\<close> is \<open>AI_DEFAULTS.RETRY_ATTEMPTS\<close>, a
  constant of \<open>constants/ai\<close>, which is not among the sources; the spec gives 3. The
  other values are the defaults that \<open>createRetryHandler\<close> writes out.
\<close>

definition default_retry_config :: retry_config where
  "default_retry_config =
     \<lparr>maxRetries = 3, baseDelayMs = 1000, maxDelayMs = 30000, backoffMultiplier = 2\<rparr>"

section \<open>The rate limiter admits by a sliding window\<close>

lemma fold_addRequest: "fold addRequest ts rs = rs @ ts"
  by (induction ts arbitrary: rs) (simp_all add: addRequest_def)

lemma shift_old_keeps_suffix:
  "list_all (\<lambda>t. w \<le> t) ts \<Longrightarrow> length ts \<le> length (shift_old w (rs @ ts))"
proof (induction rs)
  case Nil
  then show ?case by (cases ts) auto
next
  case (Cons r rs)
  then show ?case by auto
qed

lemma shift_old_drops_head:
  "ts \<noteq> [] \<Longrightarrow> hd ts < w \<Longrightarrow> length (shift_old w ts) < length ts"
proof (induction ts)
  case Nil
  then show ?case by simp
next
  case (Cons t ts)
  have "length (shift_old w ts) \<le> length ts"
    by (induction ts) auto
  with Cons.prems show ?case by simp
qed

text \<open>
  Claim C5, as the code has it. \<open>isAllowed\<close> drops a timestamp only when it is older than
  \<open>now - windowSizeMs\<close>. With limit 2 and a window of 1000 ms, after two calls of
  \<open>addRequest\<close> at time 0, \<open>isAllowed\<close> is still false at time 1000, when 1000 ms have
  elapsed.
\<close>

theorem C5_sliding_window_counterexample:
  "\<not> fst (isAllowed 2 1000 1000
           (snd (isAllowed 2 1000 0 (addRequest 0 (addRequest 0 [])))))"
  by (simp add: isAllowed_def addRequest_def Let_def)

text \<open>
  Claim C5, amended. With limit \<open>N\<close> and window \<open>W\<close>: after \<open>N\<close> calls of \<open>addRequest\<close> whose
  timestamps all lie in the trailing window \<open>[now - W, now]\<close>, whatever was recorded
  before, \<open>isAllowed\<close> is false; when a fresh limiter has recorded \<open>N\<close> calls and the
  oldest timestamp is older than \<open>now - W\<close>, \<open>isAllowed\<close> is true. With limit 2 and a
  window of 1000 ms, two calls at \<open>t1\<close> and \<open>t2\<close> make \<open>isAllowed\<close> false while both are in
  the window, and a later \<open>isAllowed\<close>, more than 1000 ms after \<open>t1\<close>, is true.
\<close>

theorem C5_sliding_window_amended:
  "(int (length ts) = N \<and> list_all (\<lambda>t. now - W \<le> t) ts \<longrightarrow>
      \<not> fst (isAllowed N W now (fold addRequest ts rs0))) \<and>
   (int (length ts) = N \<and> ts \<noteq> [] \<and> hd ts < now - W \<longrightarrow>
      fst (isAllowed N W now (fold addRequest ts []))) \<and>
   (now1 - 1000 \<le> t1 \<and> now1 - 1000 \<le> t2 \<and> t1 + 1000 < now2 \<longrightarrow>
      \<not> fst (isAllowed 2 1000 now1 (addRequest t2 (addRequest t1 []))) \<and>
      fst (isAllowed 2 1000 now2
             (snd (isAllowed 2 1000 now1 (addRequest t2 (addRequest t1 []))))))"
proof (intro conjI impI)
  assume a: "int (length ts) = N \<and> list_all (\<lambda>t. now - W \<le> t) ts"
  then have "length ts \<le> length (shift_old (now - W) (rs0 @ ts))"
    by (intro shift_old_keeps_suffix) simp
  with a show "\<not> fst (isAllowed N W now (fold addRequest ts rs0))"
    by (simp add: isAllowed_def fold_addRequest Let_def)
next
  assume a: "int (length ts) = N \<and> ts \<noteq> [] \<and> hd ts < now - W"
  then have "length (shift_old (now - W) ts) < length ts"
    by (intro shift_old_drops_head) simp_all
  with a show "fst (isAllowed N W now (fold addRequest ts []))"
    by (simp add: isAllowed_def fold_addRequest Let_def)
next
  assume a: "now1 - 1000 \<le> t1 \<and> now1 - 1000 \<le> t2 \<and> t1 + 1000 < now2"
  then show "\<not> fst (isAllowed 2 1000 now1 (addRequest t2 (addRequest t1 [])))"
    by (simp add: isAllowed_def addRequest_def Let_def)
next
  assume a: "now1 - 1000 \<le> t1 \<and> now1 - 1000 \<le> t2 \<and> t1 + 1000 < now2"
  then show "fst (isAllowed 2 1000 now2
             (snd (isAllowed 2 1000 now1 (addRequest t2 (addRequest t1 [])))))"
    by (simp add: isAllowed_def addRequest_def Let_def)
qed

theorem C5_sliding_window_amended_witness:
  "\<not> fst (isAllowed 3 60000 50000 (fold addRequest [1000, 2000, 3000] [500])) \<and>
   fst (isAllowed 3 60000 61001 (fold addRequest [1000, 2000, 3000] [])) \<and>
   \<not> fst (isAllowed 2 1000 900 (addRequest 10 (addRequest 0 []))) \<and>
   fst (isAllowed 2 1000 1001 (snd (isAllowed 2 1000 900 (addRequest 10 (addRequest 0 [])))))"
  using C5_sliding_window_amended[of "[1000, 2000, 3000]" 3 50000 60000 "[500]" 900 0 10 1001]
    C5_sliding_window_amended[of "[1000, 2000, 3000]" 3 61001 60000 "[500]" 900 0 10 1001]
  by simp

section \<open>The retry handler counts its attempts\<close>

lemma retry_loop_fatal:
  assumes "attempt \<le> maxRetries cfg + 1" "operation attempt = Inl e" "\<not> isRetryableError e"
  shows "retry_loop cfg random operation attempt le = (Inl e, 1, [])"
  using assms by (subst retry_loop.simps) simp

lemma retry_loop_retryable:
  "\<forall>i. \<exists>e. operation i = Inl e \<and> isRetryableError e \<Longrightarrow> attempt \<le> maxRetries cfg + 1 \<Longrightarrow>
     fst (retry_loop cfg random operation attempt le) = operation (maxRetries cfg + 1) \<and>
     fst (snd (retry_loop cfg random operation attempt le)) = nat (maxRetries cfg + 2 - attempt)"
proof (induction cfg random operation attempt le rule: retry_loop.induct)
  case (1 cfg random operation attempt lastError)
  from "1.prems" obtain e where e: "operation attempt = Inl e" "isRetryableError e" by blast
  show ?case
  proof (cases "attempt > maxRetries cfg")
    case True
    with "1.prems"(2) have "attempt = maxRetries cfg + 1" by simp
    with e True show ?thesis by (subst (1 2) retry_loop.simps) simp
  next
    case False
    then have le: "attempt + 1 \<le> maxRetries cfg + 1" by simp
    have IH: "fst (retry_loop cfg random operation (attempt + 1) e) = operation (maxRetries cfg + 1) \<and>
     fst (snd (retry_loop cfg random operation (attempt + 1) e)) = nat (maxRetries cfg + 2 - (attempt + 1))"
      using "1.IH"[OF "1.prems"(2) e(1) _ refl "1.prems"(1) le] False e(2) by simp
    have n: "Suc (nat (maxRetries cfg + 2 - (attempt + 1))) = nat (maxRetries cfg + 2 - attempt)"
      using False by simp
    show ?thesis
      using IH e False "1.prems" n
      by (subst (1 2) retry_loop.simps) (simp add: Let_def split_beta)
  qed
qed

text \<open>
  Claim C4. With \<open>maxRetries \<ge> 0\<close>: an operation that throws a non-retryable error at
  every invocation is invoked once, and \<open>retry\<close> throws the error of that invocation; an
  operation that throws a retryable error at every invocation is invoked
  \<open>maxRetries + 1\<close> times, and \<open>retry\<close> throws the error of the last invocation. With
  \<open>maxRetries = 2\<close> and an operation that always throws an error of status code 503,
  there are 3 invocations and that error is thrown.
\<close>

theorem C4_retry_attempts:
  "(0 \<le> maxRetries cfg \<and> (\<forall>i. \<exists>e. operation i = Inl e \<and> \<not> isRetryableError e) \<longrightarrow>
      fst (retry cfg random operation) = operation 1 \<and>
      fst (snd (retry cfg random operation)) = 1) \<and>
   (0 \<le> maxRetries cfg \<and> (\<forall>i. \<exists>e. operation i = Inl e \<and> isRetryableError e) \<longrightarrow>
      fst (retry cfg random operation) = operation (maxRetries cfg + 1) \<and>
      fst (snd (retry cfg random operation)) = nat (maxRetries cfg + 1)) \<and>
   (maxRetries cfg = 2 \<and> (\<forall>i. operation i = Inl (ErrObj c (Some 503) m)) \<longrightarrow>
      fst (retry cfg random operation) = Inl (ErrObj c (Some 503) m) \<and>
      fst (snd (retry cfg random operation)) = 3)"
proof (intro conjI impI)
  assume a: "0 \<le> maxRetries cfg \<and> (\<forall>i. \<exists>e. operation i = Inl e \<and> \<not> isRetryableError e)"
  then obtain e where e: "operation 1 = Inl e" "\<not> isRetryableError e" by blast
  from a have "retry cfg random operation = (Inl e, 1, [])"
    unfolding retry_def using e by (intro retry_loop_fatal) simp_all
  with e show "fst (retry cfg random operation) = operation 1"
    and "fst (snd (retry cfg random operation)) = 1" by simp_all
next
  assume a: "0 \<le> maxRetries cfg \<and> (\<forall>i. \<exists>e. operation i = Inl e \<and> isRetryableError e)"
  with retry_loop_retryable[of operation 1 cfg random JsUndefined]
  show "fst (retry cfg random operation) = operation (maxRetries cfg + 1)"
    and "fst (snd (retry cfg random operation)) = nat (maxRetries cfg + 1)"
    by (simp_all add: retry_def)
next
  assume a: "maxRetries cfg = 2 \<and> (\<forall>i. operation i = Inl (ErrObj c (Some 503) m))"
  have r: "isRetryableError (ErrObj c (Some 503) m)"
    by (simp add: retryableStatusCodes_def)
  with a have "\<forall>i. \<exists>e. operation i = Inl e \<and> isRetryableError e" by simp
  with retry_loop_retryable[of operation 1 cfg random JsUndefined] a
  show "fst (retry cfg random operation) = Inl (ErrObj c (Some 503) m)"
    and "fst (snd (retry cfg random operation)) = 3"
    by (simp_all add: retry_def)
qed

theorem C4_retry_attempts_witness:
  "fst (retry default_retry_config (\<lambda>i. 0)
          (\<lambda>i. Inl (ErrObj None (Some 400) None) :: thrown + unit))
     = Inl (ErrObj None (Some 400) None) \<and>
   fst (snd (retry default_retry_config (\<lambda>i. 0)
          (\<lambda>i. Inl (ErrObj None (Some 400) None) :: thrown + unit))) = 1 \<and>
   fst (retry default_retry_config (\<lambda>i. 0)
          (\<lambda>i. Inl (ErrObj (Some (js ''ETIMEDOUT'')) None None) :: thrown + unit))
     = Inl (ErrObj (Some (js ''ETIMEDOUT'')) None None) \<and>
   fst (snd (retry default_retry_config (\<lambda>i. 0)
          (\<lambda>i. Inl (ErrObj (Some (js ''ETIMEDOUT'')) None None) :: thrown + unit))) = 4 \<and>
   fst (retry (default_retry_config\<lparr>maxRetries := 2\<rparr>) (\<lambda>i. 0)
          (\<lambda>i. Inl (ErrObj None (Some 503) None) :: thrown + unit))
     = Inl (ErrObj None (Some 503) None) \<and>
   fst (snd (retry (default_retry_config\<lparr>maxRetries := 2\<rparr>) (\<lambda>i. 0)
          (\<lambda>i. Inl (ErrObj None (Some 503) None) :: thrown + unit))) = 3"
  using
    C4_retry_attempts[of default_retry_config
      "\<lambda>i. Inl (ErrObj None (Some 400) None) :: thrown + unit" "\<lambda>i. 0" None None]
    C4_retry_attempts[of default_retry_config
      "\<lambda>i. Inl (ErrObj (Some (js ''ETIMEDOUT'')) None None) :: thrown + unit" "\<lambda>i. 0" None None]
    C4_retry_attempts[of "default_retry_config\<lparr>maxRetries := 2\<rparr>"
      "\<lambda>i. Inl (ErrObj None (Some 503) None) :: thrown + unit" "\<lambda>i. 0" None None]
  by (simp add: default_retry_config_def retryableStatusCodes_def retryableCodes_def)

section \<open>The backoff delay\<close>

lemma calculateDelay_formula:
  "1 \<le> n \<Longrightarrow> calculateDelay cfg r n =
     min (baseDelayMs cfg * backoffMultiplier cfg ^ nat (n - 1) +
          r * 0.1 * (baseDelayMs cfg * backoffMultiplier cfg ^ nat (n - 1)))
         (maxDelayMs cfg)"
  by (simp add: calculateDelay_def Let_def power_int_def)

lemma calculateDelay_mono:
  assumes "0 \<le> baseDelayMs cfg" "1 \<le> backoffMultiplier cfg" "1 \<le> m" "m \<le> n"
  shows "calculateDelay cfg 0 m \<le> calculateDelay cfg 0 n"
proof -
  have "nat (m - 1) \<le> nat (n - 1)" using assms by simp
  then have "backoffMultiplier cfg ^ nat (m - 1) \<le> backoffMultiplier cfg ^ nat (n - 1)"
    using assms(2) by (rule power_increasing)
  then have "baseDelayMs cfg * backoffMultiplier cfg ^ nat (m - 1)
           \<le> baseDelayMs cfg * backoffMultiplier cfg ^ nat (n - 1)"
    using assms(1) by (rule mult_left_mono)
  then show ?thesis
    using assms(3,4) by (simp add: calculateDelay_formula)
qed

text \<open>
  Claim C8, as the code has it. The handler takes any multiplier: with a base delay of
  1000 ms and a multiplier of one half, the delay of attempt 1 is 1000 ms and the delay
  of attempt 2 is 500 ms, with the jitter at 0.
\<close>

theorem C8_backoff_delay_counterexample:
  "\<not> calculateDelay
        \<lparr>maxRetries = 3, baseDelayMs = 1000, maxDelayMs = 30000, backoffMultiplier = 1/2\<rparr> 0 1
      \<le> calculateDelay
        \<lparr>maxRetries = 3, baseDelayMs = 1000, maxDelayMs = 30000, backoffMultiplier = 1/2\<rparr> 0 2"
  by (simp add: calculateDelay_def Let_def)

text \<open>
  Claim C8, amended. For an attempt \<open>n \<ge> 1\<close> and a draw \<open>r\<close> of \<open>Math.random()\<close>, the delay is
  \<open>min (d + j) maxDelayMs\<close> with \<open>d = baseDelayMs * backoffMultiplier ^ (n - 1)\<close> and the
  jitter \<open>j = r * 0.1 * d\<close>; the jitter lies between 0 and \<open>0.1 * d\<close> when the base delay and
  the multiplier are not negative and \<open>0 \<le> r < 1\<close>; with the jitter at 0, a base delay
  that is not negative and a multiplier of at least 1, the delays do not decrease from
  one attempt to a later one; and every delay is at most \<open>maxDelayMs\<close>.
\<close>

theorem C8_backoff_delay_amended:
  "(1 \<le> n \<longrightarrow>
      calculateDelay cfg r n =
        min (baseDelayMs cfg * backoffMultiplier cfg ^ nat (n - 1) +
             r * 0.1 * (baseDelayMs cfg * backoffMultiplier cfg ^ nat (n - 1)))
            (maxDelayMs cfg)) \<and>
   (0 \<le> baseDelayMs cfg \<and> 0 \<le> backoffMultiplier cfg \<and> 0 \<le> r \<and> r < 1 \<longrightarrow>
      0 \<le> r * 0.1 * (baseDelayMs cfg * backoffMultiplier cfg ^ nat (n - 1)) \<and>
      r * 0.1 * (baseDelayMs cfg * backoffMultiplier cfg ^ nat (n - 1))
        \<le> 0.1 * (baseDelayMs cfg * backoffMultiplier cfg ^ nat (n - 1))) \<and>
   (0 \<le> baseDelayMs cfg \<and> 1 \<le> backoffMultiplier cfg \<and> 1 \<le> m \<and> m \<le> n \<longrightarrow>
      calculateDelay cfg 0 m \<le> calculateDelay cfg 0 n) \<and>
   calculateDelay cfg r n \<le> maxDelayMs cfg"
proof (intro conjI impI)
  assume "1 \<le> n"
  then show "calculateDelay cfg r n =
        min (baseDelayMs cfg * backoffMultiplier cfg ^ nat (n - 1) +
             r * 0.1 * (baseDelayMs cfg * backoffMultiplier cfg ^ nat (n - 1)))
            (maxDelayMs cfg)"
    by (rule calculateDelay_formula)
next
  assume a: "0 \<le> baseDelayMs cfg \<and> 0 \<le> backoffMultiplier cfg \<and> 0 \<le> r \<and> r < 1"
  then have d: "0 \<le> baseDelayMs cfg * backoffMultiplier cfg ^ nat (n - 1)" by simp
  with a show "0 \<le> r * 0.1 * (baseDelayMs cfg * backoffMultiplier cfg ^ nat (n - 1))"
    by simp
  have "r * (baseDelayMs cfg * backoffMultiplier cfg ^ nat (n - 1))
          \<le> 1 * (baseDelayMs cfg * backoffMultiplier cfg ^ nat (n - 1))"
    using a d by (intro mult_right_mono) simp_all
  then show "r * 0.1 * (baseDelayMs cfg * backoffMultiplier cfg ^ nat (n - 1))
        \<le> 0.1 * (baseDelayMs cfg * backoffMultiplier cfg ^ nat (n - 1))"
    by simp
next
  assume "0 \<le> baseDelayMs cfg \<and> 1 \<le> backoffMultiplier cfg \<and> 1 \<le> m \<and> m \<le> n"
  then show "calculateDelay cfg 0 m \<le> calculateDelay cfg 0 n"
    by (intro calculateDelay_mono) simp_all
next
  show "calculateDelay cfg r n \<le> maxDelayMs cfg"
    by (simp add: calculateDelay_def Let_def)
qed

theorem C8_backoff_delay_amended_witness:
  "calculateDelay default_retry_config (1/2) 3 = 4200 \<and>
   calculateDelay default_retry_config 0 2 \<le> calculateDelay default_retry_config 0 3 \<and>
   calculateDelay default_retry_config (1/2) 3 \<le> 30000"
  using C8_backoff_delay_amended[of 3 default_retry_config "1/2" 2]
  by (simp add: default_retry_config_def)

section \<open>Facts about the map operations\<close>

lemma Map_get_Some_mem: "Map_get m k = Some e \<Longrightarrow> (k, e) \<in> set m"
  by (induction m) (auto split: if_splits)

lemma Map_get_distinct:
  "distinct (map fst m) \<Longrightarrow> (k, e) \<in> set m \<Longrightarrow> Map_get m k = Some e"
  by (induction m) (auto simp: rev_image_eqI)

lemma Map_get_None_iff: "Map_get m k = None \<longleftrightarrow> k \<notin> fst ` set m"
  by (induction m) force+

lemma Map_get_Map_set_same: "Map_get (Map_set k e m) k = Some e"
  by (induction m) auto

lemma Map_get_Map_set_other: "k' \<noteq> k \<Longrightarrow> Map_get (Map_set k e m) k' = Map_get m k'"
  by (induction m) auto

lemma keys_Map_set: "fst ` set (Map_set k e m) = insert k (fst ` set m)"
  by (induction m) (force split: if_splits)+

lemma distinct_Map_set: "distinct (map fst m) \<Longrightarrow> distinct (map fst (Map_set k e m))"
  by (induction m) (auto simp: keys_Map_set)

lemma distinct_Map_delete: "distinct (map fst m) \<Longrightarrow> distinct (map fst (Map_delete k m))"
  by (simp add: Map_delete_def distinct_map_filter)

lemma set_Map_delete: "set (Map_delete k m) = {p \<in> set m. fst p \<noteq> k}"
  by (auto simp: Map_delete_def)

lemma sizes_Map_delete:
  "distinct (map fst m) \<Longrightarrow> (k, e) \<in> set m \<Longrightarrow> sizes (Map_delete k m) = sizes m - size_e e"
proof (induction m)
  case Nil
  then show ?case by simp
next
  case (Cons p m)
  show ?case
  proof (cases "fst p = k")
    case True
    with Cons.prems have pe: "p = (k, e)" and notin: "k \<notin> fst ` set m"
      by (auto simp: rev_image_eqI)
    from notin have "filter (\<lambda>p. fst p \<noteq> k) m = m"
      by (auto simp: filter_id_conv)
    with pe show ?thesis by (simp add: sizes_def Map_delete_def)
  next
    case False
    with Cons show ?thesis by (auto simp: sizes_def Map_delete_def)
  qed
qed

lemma sizes_Map_delete_absent:
  "k \<notin> fst ` set m \<Longrightarrow> Map_delete k m = m"
  by (auto simp: Map_delete_def filter_id_conv)

lemma sizes_Map_set_new:
  "Map_get m k = None \<Longrightarrow> sizes (Map_set k e m) = sizes m + size_e e"
  by (induction m) (auto simp: sizes_def split: if_splits)

lemma sizes_Map_set_same_size:
  "Map_get m k = Some e' \<Longrightarrow> size_e e = size_e e' \<Longrightarrow> sizes (Map_set k e m) = sizes m"
  by (induction m) (auto simp: sizes_def split: if_splits)

lemma set_Map_set_sizes:
  "p \<in> set (Map_set k e m) \<Longrightarrow> p = (k, e) \<or> p \<in> set m"
  by (induction m) (auto split: if_splits)


section \<open>The cache and its size counter\<close>

text \<open>
  The invariant of a cache whose counter is right: the keys of the map are distinct,
  \<open>currentSize\<close> is the sum of the sizes of the entries, and no size is negative.
\<close>

definition cache_inv :: "'v cache_state \<Rightarrow> bool" where
  "cache_inv st \<longleftrightarrow>
     distinct (map fst (cache st)) \<and> currentSize st = sizes (cache st) \<and>
     (\<forall>p \<in> set (cache st). 0 \<le> size_e (snd p))"

lemma sizes_nonneg: "\<forall>p \<in> set m. 0 \<le> size_e (snd p) \<Longrightarrow> 0 \<le> sizes m"
  by (induction m) (auto simp: sizes_def)

lemma cache_inv_delete:
  assumes "cache_inv st" "(k, e) \<in> set (cache st)"
  shows "cache_inv (st\<lparr>currentSize := currentSize st - size_e e, cache := Map_delete k (cache st)\<rparr>)"
  using assms by (auto simp: cache_inv_def distinct_Map_delete sizes_Map_delete set_Map_delete)

lemma sizes_delete_le:
  assumes "cache_inv st" "(k, e) \<in> set (cache st)"
  shows "sizes (Map_delete k (cache st)) \<le> sizes (cache st)"
  using assms by (auto simp: cache_inv_def sizes_Map_delete)

lemma cleanup_loop_inv:
  "cache_inv st \<Longrightarrow> set xs \<subseteq> set (cache st) \<Longrightarrow> distinct (map fst xs) \<Longrightarrow>
   cache_inv (cleanup_loop now xs st) \<and> sizes (cache (cleanup_loop now xs st)) \<le> sizes (cache st)"
proof (induction xs arbitrary: st)
  case Nil
  then show ?case by simp
next
  case (Cons x xs)
  obtain k e where x: "x = (k, e)" by (cases x)
  show ?case
  proof (cases "now > timestamp e + ttl e")
    case True
    let ?st = "st\<lparr>currentSize := currentSize st - size_e e, cache := Map_delete k (cache st)\<rparr>"
    have mem: "(k, e) \<in> set (cache st)" using Cons.prems x by simp
    have 1: "cache_inv ?st" using Cons.prems mem by (intro cache_inv_delete)
    have 2: "set xs \<subseteq> set (cache ?st)"
      using Cons.prems x by (auto simp: set_Map_delete rev_image_eqI)
    have 3: "distinct (map fst xs)" using Cons.prems by simp
    from Cons.IH[OF 1 2 3] sizes_delete_le[OF Cons.prems(1) mem]
    show ?thesis using True x by simp
  next
    case False
    with Cons x show ?thesis by simp
  qed
qed

lemma cleanup_inv: "cache_inv st \<Longrightarrow> cache_inv (cleanup now st)"
  unfolding cleanup_def using cleanup_loop_inv[of st "cache st" now] by (simp add: cache_inv_def)

lemma cleanup_sizes_le: "cache_inv st \<Longrightarrow> sizes (cache (cleanup now st)) \<le> sizes (cache st)"
  unfolding cleanup_def using cleanup_loop_inv[of st "cache st" now] by (simp add: cache_inv_def)

lemma evictLRU_cases:
  assumes "cache st \<noteq> []"
  obtains k e where "(k, e) \<in> set (cache st)"
    and "\<forall>p \<in> set (cache st). timestamp e \<le> timestamp (snd p)"
    and "evictLRU st = st\<lparr>currentSize := currentSize st - size_e e, cache := Map_delete k (cache st)\<rparr>"
proof -
  let ?f = "\<lambda>p::jstring \<times> 'a CacheEntry. timestamp (snd p)"
  let ?s = "sort_key ?f (cache st)"
  from assms have "?s \<noteq> []" by (metis length_0_conv length_sort)
  then obtain k e r where s: "?s = (k, e) # r" by (cases ?s) auto
  have "(k, e) \<in> set ?s" by (simp add: s)
  then have mem: "(k, e) \<in> set (cache st)" by simp
  have "sorted (map ?f ?s)" by (rule sorted_sort_key)
  then have "\<forall>p \<in> set ?s. timestamp e \<le> ?f p" by (auto simp: s)
  then have least: "\<forall>p \<in> set (cache st). timestamp e \<le> timestamp (snd p)" by simp
  have "evictLRU st = st\<lparr>currentSize := currentSize st - size_e e, cache := Map_delete k (cache st)\<rparr>"
    by (simp add: evictLRU_def s)
  with mem least show ?thesis using that by blast
qed

lemma evictLRU_inv: "cache_inv st \<Longrightarrow> cache_inv (evictLRU st)"
proof (cases "cache st = []")
  case True
  assume "cache_inv st"
  with True show ?thesis by (simp add: evictLRU_def)
next
  case False
  assume inv: "cache_inv st"
  from False obtain k e where "(k, e) \<in> set (cache st)"
    and "evictLRU st = st\<lparr>currentSize := currentSize st - size_e e, cache := Map_delete k (cache st)\<rparr>"
    by (rule evictLRU_cases)
  with inv show ?thesis by (simp add: cache_inv_delete)
qed

lemma evict_loop_inv: "cache_inv st \<Longrightarrow> cache_inv (evict_loop maxSize sz st)"
proof (induction maxSize sz st rule: evict_loop.induct)
  case (1 maxSize sz st)
  show ?case
  proof (cases "currentSize st + sz > maxSize \<and> cache st \<noteq> []")
    case True
    then show ?thesis using 1 by (subst evict_loop.simps) (simp add: evictLRU_inv)
  next
    case False
    then show ?thesis using 1 by (subst evict_loop.simps) auto
  qed
qed

lemma evict_loop_exit:
  "currentSize (evict_loop maxSize sz st) + sz \<le> maxSize \<or> cache (evict_loop maxSize sz st) = []"
proof (induction maxSize sz st rule: evict_loop.induct)
  case (1 maxSize sz st)
  show ?case
  proof (cases "currentSize st + sz > maxSize \<and> cache st \<noteq> []")
    case True
    then show ?thesis using 1 by (subst (1 2) evict_loop.simps) simp
  next
    case False
    then show ?thesis by (subst (1 2) evict_loop.simps) auto
  qed
qed


lemma cache_inv_bound_delete:
  assumes "cache_inv st" "(k, e) \<in> set (cache st)" "sizes (cache st) \<le> M"
  shows "sizes (Map_delete k (cache st)) \<le> M"
  using sizes_delete_le[OF assms(1,2)] assms(3) by simp

lemma evictLRU_sizes_le: "cache_inv st \<Longrightarrow> sizes (cache (evictLRU st)) \<le> sizes (cache st)"
proof (cases "cache st = []")
  case True
  then show ?thesis by (simp add: evictLRU_def)
next
  case False
  assume inv: "cache_inv st"
  from False obtain k e where "(k, e) \<in> set (cache st)"
    and "evictLRU st = st\<lparr>currentSize := currentSize st - size_e e, cache := Map_delete k (cache st)\<rparr>"
    by (rule evictLRU_cases)
  with inv show ?thesis using sizes_delete_le[of st k e] by simp
qed


text \<open>Evaluation of the eviction loop and of the cache operations on given states.\<close>

lemma evict_loop_stop:
  "\<not> (currentSize st + sz > maxSize \<and> cache st \<noteq> []) \<Longrightarrow> evict_loop maxSize sz st = st"
  by (subst evict_loop.simps) auto

lemma evict_loop_step:
  "currentSize st + sz > maxSize \<Longrightarrow> cache st \<noteq> [] \<Longrightarrow>
   evict_loop maxSize sz st = evict_loop maxSize sz (evictLRU st)"
  by (subst evict_loop.simps) simp

lemma JSON_stringify_JStr: "JSON_stringify (JStr s) = Some (QuoteJSONString s)"
  by (simp add: JSON_stringify_def)

lemmas cache_eval =
  set_c_def get_def del_def clear_def cleanup_def createCache_def evictLRU_def isExpired_def
  Map_delete_def Let_def evict_loop_stop evict_loop_step JSON_stringify_JStr
  QuoteJSONString_def is_lead_def is_trail_def live_size_def sizes_def


text \<open>
  Two conditions on a sequence of operations. The values fit when the text of every
  value that a \<open>set\<close> stores is no longer than \<open>maxSize\<close>. The keys are fresh when the
  key of every \<open>set\<close> is not in the map at the moment its entry is stored, that is after
  the sweep and the evictions of that \<open>set\<close>. A \<open>set\<close> whose value has no JSON text
  stores nothing and meets both.
\<close>

definition fits_op :: "('v \<Rightarrow> jstring option) \<Rightarrow> int \<Rightarrow> int \<times> 'v cache_op \<Rightarrow> bool" where
  "fits_op stringify maxSize x =
     (case snd x of
        Set k v t \<Rightarrow>
          (case stringify v of None \<Rightarrow> True | Some s \<Rightarrow> int (length s) \<le> maxSize)
      | _ \<Rightarrow> True)"

definition all_fit :: "('v \<Rightarrow> jstring option) \<Rightarrow> int \<Rightarrow> (int \<times> 'v cache_op) list \<Rightarrow> bool" where
  "all_fit stringify maxSize ops = list_all (fits_op stringify maxSize) ops"

definition fresh_op ::
  "('v \<Rightarrow> jstring option) \<Rightarrow> int \<Rightarrow> int \<times> 'v cache_op \<Rightarrow> 'v cache_state \<Rightarrow> bool" where
  "fresh_op stringify maxSize x st =
     (case snd x of
        Set k v t \<Rightarrow>
          (case stringify v of
             None \<Rightarrow> True
           | Some s \<Rightarrow>
               Map_get (cache (evict_loop maxSize (int (length s)) (cleanup (fst x) st))) k = None)
      | _ \<Rightarrow> True)"

fun all_fresh ::
  "('v \<Rightarrow> jstring option) \<Rightarrow> int \<Rightarrow> (int \<times> 'v cache_op) list \<Rightarrow> 'v cache_state \<Rightarrow> bool" where
  "all_fresh stringify maxSize [] st = True"
| "all_fresh stringify maxSize (x # ops) st =
     (fresh_op stringify maxSize x st \<and>
      all_fresh stringify maxSize ops (step stringify maxSize x st))"

text \<open>
  The invariant behind the bound: the keys are distinct, no size is negative, and the
  sum of the live sizes is at most \<open>currentSize\<close> and at most \<open>maxSize\<close>.
\<close>

definition bound_inv :: "int \<Rightarrow> 'v cache_state \<Rightarrow> bool" where
  "bound_inv M st \<longleftrightarrow>
     distinct (map fst (cache st)) \<and> (\<forall>p \<in> set (cache st). 0 \<le> size_e (snd p)) \<and>
     sizes (cache st) \<le> currentSize st \<and> sizes (cache st) \<le> M"

lemma sizes_Map_set_le:
  "\<forall>p \<in> set m. 0 \<le> size_e (snd p) \<Longrightarrow> sizes (Map_set k e m) \<le> sizes m + size_e e"
  by (induction m) (auto simp: sizes_def)

lemma bound_inv_delete:
  assumes "bound_inv M st" "(k, e) \<in> set (cache st)"
  shows "bound_inv M (st\<lparr>currentSize := currentSize st - size_e e, cache := Map_delete k (cache st)\<rparr>)"
proof -
  have s: "sizes (Map_delete k (cache st)) = sizes (cache st) - size_e e"
    using assms by (intro sizes_Map_delete) (simp_all add: bound_inv_def)
  have n: "0 \<le> size_e e" using assms by (auto simp: bound_inv_def)
  show ?thesis
    using assms s n by (auto simp: bound_inv_def distinct_Map_delete set_Map_delete)
qed

text \<open>
  The sweep, an eviction and the eviction loop only delete entries, each with its size
  subtracted; they keep every property of states that such a deletion keeps.
\<close>

lemma cleanup_loop_keeps:
  assumes del: "\<And>st k e. P st \<Longrightarrow> (k, e) \<in> set (cache st) \<Longrightarrow>
      P (st\<lparr>currentSize := currentSize st - size_e e, cache := Map_delete k (cache st)\<rparr>)"
  shows "P st \<Longrightarrow> set xs \<subseteq> set (cache st) \<Longrightarrow> distinct (map fst xs) \<Longrightarrow>
         P (cleanup_loop now xs st)"
proof (induction xs arbitrary: st)
  case Nil
  then show ?case by simp
next
  case (Cons x xs)
  obtain k e where x: "x = (k, e)" by (cases x)
  show ?case
  proof (cases "now > timestamp e + ttl e")
    case True
    let ?st = "st\<lparr>currentSize := currentSize st - size_e e, cache := Map_delete k (cache st)\<rparr>"
    have mem: "(k, e) \<in> set (cache st)" using Cons.prems x by simp
    have 1: "P ?st" using Cons.prems(1) mem by (rule del)
    have 2: "set xs \<subseteq> set (cache ?st)"
      using Cons.prems x by (auto simp: set_Map_delete rev_image_eqI)
    have 3: "distinct (map fst xs)" using Cons.prems by simp
    from Cons.IH[OF 1 2 3] show ?thesis using True x by simp
  next
    case False
    with Cons x show ?thesis by simp
  qed
qed

lemma cleanup_keeps:
  assumes del: "\<And>st k e. P st \<Longrightarrow> (k, e) \<in> set (cache st) \<Longrightarrow>
      P (st\<lparr>currentSize := currentSize st - size_e e, cache := Map_delete k (cache st)\<rparr>)"
    and "P st" "distinct (map fst (cache st))"
  shows "P (cleanup now st)"
  unfolding cleanup_def
proof (rule cleanup_loop_keeps[where P = P])
  fix st k e
  assume "P st" "(k, e) \<in> set (cache st)"
  then show "P (st\<lparr>currentSize := currentSize st - size_e e, cache := Map_delete k (cache st)\<rparr>)"
    by (rule del)
qed (use assms(2,3) in simp_all)

lemma evictLRU_keeps:
  assumes del: "\<And>st k e. P st \<Longrightarrow> (k, e) \<in> set (cache st) \<Longrightarrow>
      P (st\<lparr>currentSize := currentSize st - size_e e, cache := Map_delete k (cache st)\<rparr>)"
    and "P st"
  shows "P (evictLRU st)"
proof (cases "cache st = []")
  case True
  with assms(2) show ?thesis by (simp add: evictLRU_def)
next
  case False
  then obtain k e where "(k, e) \<in> set (cache st)"
    and "evictLRU st = st\<lparr>currentSize := currentSize st - size_e e, cache := Map_delete k (cache st)\<rparr>"
    by (rule evictLRU_cases)
  with assms(2) show ?thesis using del[of st k e] by simp
qed

lemma evict_loop_keeps:
  assumes del: "\<And>st k e. P st \<Longrightarrow> (k, e) \<in> set (cache st) \<Longrightarrow>
      P (st\<lparr>currentSize := currentSize st - size_e e, cache := Map_delete k (cache st)\<rparr>)"
  shows "P st \<Longrightarrow> P (evict_loop maxSize sz st)"
proof (induction maxSize sz st rule: evict_loop.induct)
  case (1 maxSize sz st)
  show ?case
  proof (cases "currentSize st + sz > maxSize \<and> cache st \<noteq> []")
    case True
    have "P (evictLRU st)"
    proof (rule evictLRU_keeps[where P = P])
      fix st k e
      assume "P st" "(k, e) \<in> set (cache st)"
      then show "P (st\<lparr>currentSize := currentSize st - size_e e, cache := Map_delete k (cache st)\<rparr>)"
        by (rule del)
    qed (rule "1.prems")
    with True "1.IH" show ?thesis by (simp add: evict_loop_step)
  next
    case False
    then show ?thesis using "1.prems" by (simp add: evict_loop_stop)
  qed
qed

lemma bound_inv_distinct: "bound_inv M st \<Longrightarrow> distinct (map fst (cache st))"
  by (simp add: bound_inv_def)

lemma cleanup_bound: "bound_inv M st \<Longrightarrow> bound_inv M (cleanup now st)"
  by (rule cleanup_keeps[where P = "bound_inv M"]) (simp_all add: bound_inv_delete bound_inv_distinct)

lemma evict_loop_bound: "bound_inv M st \<Longrightarrow> bound_inv M (evict_loop maxSize sz st)"
  by (rule evict_loop_keeps[where P = "bound_inv M"]) (simp_all add: bound_inv_delete)

lemma get_bound:
  assumes "bound_inv M st"
  shows "bound_inv M (snd (get now k st))"
proof (cases "Map_get (cache st) k")
  case None
  with assms show ?thesis by (simp add: get_def)
next
  case (Some e)
  then have mem: "(k, e) \<in> set (cache st)" by (rule Map_get_Some_mem)
  show ?thesis
  proof (cases "isExpired now e")
    case True
    with Some show ?thesis using bound_inv_delete[OF assms mem] by (simp add: get_def)
  next
    case False
    have "sizes (Map_set k (e\<lparr>timestamp := now\<rparr>) (cache st)) = sizes (cache st)"
      using Some by (intro sizes_Map_set_same_size[of _ _ e]) simp_all
    moreover have "\<forall>p \<in> set (Map_set k (e\<lparr>timestamp := now\<rparr>) (cache st)). 0 \<le> size_e (snd p)"
      using assms mem by (auto simp: bound_inv_def dest!: set_Map_set_sizes)
    ultimately show ?thesis
      using Some False assms by (simp add: get_def bound_inv_def distinct_Map_set)
  qed
qed

lemma del_bound:
  assumes "bound_inv M st"
  shows "bound_inv M (snd (del k st))"
proof (cases "Map_get (cache st) k")
  case None
  with assms show ?thesis by (simp add: del_def)
next
  case (Some e)
  then have "(k, e) \<in> set (cache st)" by (rule Map_get_Some_mem)
  with Some show ?thesis using bound_inv_delete[OF assms] by (simp add: del_def)
qed

lemma set_c_bound:
  assumes inv: "bound_inv M st" and fit: "fits_op stringify M (now, Set k v t)"
  shows "bound_inv M (snd (set_c stringify M now k v t st))"
proof (cases "stringify v")
  case None
  then show ?thesis using cleanup_bound[OF inv, of now] by (simp add: set_c_def)
next
  case (Some s)
  let ?sz = "int (length s)"
  let ?st2 = "evict_loop M ?sz (cleanup now st)"
  let ?e = "\<lparr>data = v, timestamp = now, ttl = t, key = k, size_e = ?sz\<rparr>"
  from fit Some have le: "?sz \<le> M" by (simp add: fits_op_def)
  have inv2: "bound_inv M ?st2" using inv by (intro evict_loop_bound cleanup_bound)
  then have nn: "\<forall>p \<in> set (cache ?st2). 0 \<le> size_e (snd p)"
    and cs: "sizes (cache ?st2) \<le> currentSize ?st2" by (simp_all add: bound_inv_def)
  have up: "sizes (Map_set k ?e (cache ?st2)) \<le> sizes (cache ?st2) + ?sz"
    using sizes_Map_set_le[OF nn, of k ?e] by simp
  have room: "sizes (Map_set k ?e (cache ?st2)) \<le> M"
  proof -
    from evict_loop_exit[of M ?sz "cleanup now st"]
    consider "currentSize ?st2 + ?sz \<le> M" | "cache ?st2 = []" by blast
    then show ?thesis
    proof cases
      case 1
      with up cs show ?thesis by simp
    next
      case 2
      with le show ?thesis by (simp add: sizes_def)
    qed
  qed
  have nonneg: "\<forall>p \<in> set (Map_set k ?e (cache ?st2)). 0 \<le> size_e (snd p)"
    using nn by (auto dest!: set_Map_set_sizes)
  show ?thesis
    using Some inv2 room up cs nonneg
    by (simp add: set_c_def Let_def bound_inv_def distinct_Map_set)
qed

lemma step_bound:
  assumes "0 \<le> M" "bound_inv M st" "fits_op stringify M x"
  shows "bound_inv M (step stringify M x st)"
proof -
  obtain now op where x: "x = (now, op)" by (cases x)
  show ?thesis
  proof (cases op)
    case (Get k)
    with x assms show ?thesis by (simp add: get_bound)
  next
    case (Set k v t)
    with x assms show ?thesis by (simp add: set_c_bound)
  next
    case (Del k)
    with x assms show ?thesis by (simp add: del_bound)
  next
    case Clear
    with x assms show ?thesis by (simp add: clear_def bound_inv_def sizes_def)
  next
    case Cleanup
    with x assms show ?thesis by (simp add: cleanup_bound)
  qed
qed

lemma run_bound:
  "0 \<le> M \<Longrightarrow> bound_inv M st \<Longrightarrow> all_fit stringify M ops \<Longrightarrow>
   bound_inv M (run stringify M ops st)"
  by (induction ops arbitrary: st) (simp_all add: step_bound all_fit_def)

lemma get_counter:
  assumes "cache_inv st"
  shows "cache_inv (snd (get now k st))"
proof (cases "Map_get (cache st) k")
  case None
  with assms show ?thesis by (simp add: get_def)
next
  case (Some e)
  then have mem: "(k, e) \<in> set (cache st)" by (rule Map_get_Some_mem)
  show ?thesis
  proof (cases "isExpired now e")
    case True
    with Some show ?thesis using cache_inv_delete[OF assms mem] by (simp add: get_def)
  next
    case False
    have "sizes (Map_set k (e\<lparr>timestamp := now\<rparr>) (cache st)) = sizes (cache st)"
      using Some by (intro sizes_Map_set_same_size[of _ _ e]) simp_all
    moreover have "\<forall>p \<in> set (Map_set k (e\<lparr>timestamp := now\<rparr>) (cache st)). 0 \<le> size_e (snd p)"
      using assms mem by (auto simp: cache_inv_def dest!: set_Map_set_sizes)
    ultimately show ?thesis
      using Some False assms by (simp add: get_def cache_inv_def distinct_Map_set)
  qed
qed

lemma del_counter:
  assumes "cache_inv st"
  shows "cache_inv (snd (del k st))"
proof (cases "Map_get (cache st) k")
  case None
  with assms show ?thesis by (simp add: del_def)
next
  case (Some e)
  then have "(k, e) \<in> set (cache st)" by (rule Map_get_Some_mem)
  with Some show ?thesis using cache_inv_delete[OF assms] by (simp add: del_def)
qed

lemma set_c_counter:
  assumes inv: "cache_inv st" and fresh: "fresh_op stringify M (now, Set k v t) st"
  shows "cache_inv (snd (set_c stringify M now k v t st))"
proof (cases "stringify v")
  case None
  then show ?thesis using cleanup_inv[OF inv, of now] by (simp add: set_c_def)
next
  case (Some s)
  let ?sz = "int (length s)"
  let ?st2 = "evict_loop M ?sz (cleanup now st)"
  let ?e = "\<lparr>data = v, timestamp = now, ttl = t, key = k, size_e = ?sz\<rparr>"
  from fresh Some have new: "Map_get (cache ?st2) k = None" by (simp add: fresh_op_def)
  have inv2: "cache_inv ?st2" using inv by (intro evict_loop_inv cleanup_inv)
  have s: "sizes (Map_set k ?e (cache ?st2)) = sizes (cache ?st2) + ?sz"
    using new by (simp add: sizes_Map_set_new)
  have nonneg: "\<forall>p \<in> set (Map_set k ?e (cache ?st2)). 0 \<le> size_e (snd p)"
    using inv2 by (auto simp: cache_inv_def dest!: set_Map_set_sizes)
  show ?thesis
    using Some inv2 s nonneg by (simp add: set_c_def Let_def cache_inv_def distinct_Map_set)
qed

lemma step_counter:
  assumes "cache_inv st" "fresh_op stringify M x st"
  shows "cache_inv (step stringify M x st)"
proof -
  obtain now op where x: "x = (now, op)" by (cases x)
  show ?thesis
  proof (cases op)
    case (Get k)
    with x assms show ?thesis by (simp add: get_counter)
  next
    case (Set k v t)
    with x assms show ?thesis by (simp add: set_c_counter)
  next
    case (Del k)
    with x assms show ?thesis by (simp add: del_counter)
  next
    case Clear
    with x assms show ?thesis by (simp add: clear_def cache_inv_def sizes_def)
  next
    case Cleanup
    with x assms show ?thesis by (simp add: cleanup_inv)
  qed
qed

lemma run_counter:
  "cache_inv st \<Longrightarrow> all_fresh stringify M ops st \<Longrightarrow> cache_inv (run stringify M ops st)"
  by (induction ops arbitrary: st) (simp_all add: step_counter)

text \<open>
  Claim C3, as the code has it. The claim fails in two ways. A value whose text is
  longer than \<open>maxSize\<close> is stored after everything else has been evicted, so the live
  sizes exceed \<open>maxSize\<close> (as the empty cache does when \<open>maxSize\<close> is negative); and a
  \<open>set\<close> on a key that is still in the map replaces the entry without subtracting the
  size of the old one, so \<open>currentSize\<close> exceeds the sum of the live sizes.
\<close>

theorem C3_capacity_invariant_counterexample:
  "\<not> live_size (run JSON_stringify 10
        [(0, Set (js ''k'') (JStr (js ''0123456789'')) 1000)] createCache) \<le> 10 \<and>
   currentSize (run JSON_stringify 100
        [(0, Set (js ''k'') (JStr (js ''v'')) 1000), (1, Set (js ''k'') (JStr (js ''v'')) 1000)]
        createCache)
     \<noteq> live_size (run JSON_stringify 100
        [(0, Set (js ''k'') (JStr (js ''v'')) 1000), (1, Set (js ''k'') (JStr (js ''v'')) 1000)]
        createCache) \<and>
   \<not> live_size (run JSON_stringify (- 1) [] createCache) \<le> - 1"
  by (simp add: cache_eval)


text \<open>
  Claim C3, amended. After every sequence of operations (\<open>get\<close>, \<open>set\<close>, \<open>del\<close>, \<open>clear\<close>,
  \<open>cleanup\<close>, each at any clock reading) from the empty cache: when \<open>maxSize \<ge> 0\<close> and
  the values fit, the sum of the sizes of the live entries is at most \<open>maxSize\<close>, whether
  or not a \<open>set\<close> overwrites a live key; and when the keys are fresh, \<open>currentSize\<close>
  equals that sum, whatever the sizes of the values.
\<close>

theorem C3_capacity_invariant_amended:
  "(0 \<le> maxSize \<and> all_fit stringify maxSize ops \<longrightarrow>
      live_size (run stringify maxSize ops createCache) \<le> maxSize) \<and>
   (all_fresh stringify maxSize ops createCache \<longrightarrow>
      currentSize (run stringify maxSize ops createCache)
        = live_size (run stringify maxSize ops createCache))"
proof (intro conjI impI)
  assume a: "0 \<le> maxSize \<and> all_fit stringify maxSize ops"
  then have "bound_inv maxSize (createCache :: 'a cache_state)"
    by (simp add: bound_inv_def createCache_def sizes_def)
  with a have "bound_inv maxSize (run stringify maxSize ops createCache)"
    by (intro run_bound) simp_all
  then show "live_size (run stringify maxSize ops createCache) \<le> maxSize"
    by (simp add: bound_inv_def live_size_def)
next
  assume a: "all_fresh stringify maxSize ops createCache"
  have "cache_inv (createCache :: 'a cache_state)"
    by (simp add: cache_inv_def createCache_def sizes_def)
  then have "cache_inv (run stringify maxSize ops createCache)"
    using a by (rule run_counter)
  then show "currentSize (run stringify maxSize ops createCache)
        = live_size (run stringify maxSize ops createCache)"
    by (simp add: cache_inv_def live_size_def)
qed

theorem C3_capacity_invariant_amended_witness:
  "all_fit JSON_stringify 10
     [(0, Set (js ''a'') (JStr (js ''1234'')) 1000), (1, Get (js ''a'')),
      (2, Set (js ''a'') (JStr (js ''56'')) 10), (3, Set (js ''c'') JUndefined 10),
      (4, Del (js ''b'')), (5, Set (js ''d'') (JStr (js ''789'')) 50),
      (2000, Cleanup)] \<and>
   all_fresh JSON_stringify 5
     [(0, Set (js ''a'') (JStr (js ''1234'')) 1000), (1, Get (js ''a'')),
      (2, Set (js ''b'') (JStr (js ''56'')) 10), (3, Set (js ''c'') JUndefined 10),
      (4, Del (js ''b'')), (5, Set (js ''d'') (JStr (js ''789'')) 50),
      (2000, Cleanup), (2001, Clear)] createCache \<and>
   live_size (run JSON_stringify 10
     [(0, Set (js ''a'') (JStr (js ''1234'')) 1000), (1, Get (js ''a'')),
      (2, Set (js ''a'') (JStr (js ''56'')) 10), (3, Set (js ''c'') JUndefined 10),
      (4, Del (js ''b'')), (5, Set (js ''d'') (JStr (js ''789'')) 50),
      (2000, Cleanup)] createCache) \<le> 10 \<and>
   currentSize (run JSON_stringify 5
     [(0, Set (js ''a'') (JStr (js ''1234'')) 1000), (1, Get (js ''a'')),
      (2, Set (js ''b'') (JStr (js ''56'')) 10), (3, Set (js ''c'') JUndefined 10),
      (4, Del (js ''b'')), (5, Set (js ''d'') (JStr (js ''789'')) 50),
      (2000, Cleanup), (2001, Clear)] createCache)
     = live_size (run JSON_stringify 5
     [(0, Set (js ''a'') (JStr (js ''1234'')) 1000), (1, Get (js ''a'')),
      (2, Set (js ''b'') (JStr (js ''56'')) 10), (3, Set (js ''c'') JUndefined 10),
      (4, Del (js ''b'')), (5, Set (js ''d'') (JStr (js ''789'')) 50),
      (2000, Cleanup), (2001, Clear)] createCache)"
  using
    C3_capacity_invariant_amended[of 10 JSON_stringify
     "[(0, Set (js ''a'') (JStr (js ''1234'')) 1000), (1, Get (js ''a'')),
      (2, Set (js ''a'') (JStr (js ''56'')) 10), (3, Set (js ''c'') JUndefined 10),
      (4, Del (js ''b'')), (5, Set (js ''d'') (JStr (js ''789'')) 50),
      (2000, Cleanup)]"]
    C3_capacity_invariant_amended[of 5 JSON_stringify
     "[(0, Set (js ''a'') (JStr (js ''1234'')) 1000), (1, Get (js ''a'')),
      (2, Set (js ''b'') (JStr (js ''56'')) 10), (3, Set (js ''c'') JUndefined 10),
      (4, Del (js ''b'')), (5, Set (js ''d'') (JStr (js ''789'')) 50),
      (2000, Cleanup), (2001, Clear)]"]
  by (simp add: cache_eval all_fit_def fits_op_def fresh_op_def JSON_stringify_def)

section \<open>Reading the cache after writing it\<close>

lemma Map_get_Map_delete_same: "Map_get (Map_delete k m) k = None"
  by (induction m) (auto simp: Map_delete_def)

lemma Map_get_Map_delete_other: "k' \<noteq> k \<Longrightarrow> Map_get (Map_delete k' m) k = Map_get m k"
  by (induction m) (auto simp: Map_delete_def)

lemma get_after_set:
  assumes "stringify v = Some s"
  shows "Map_get (cache (snd (set_c stringify maxSize t0 k v ttl0 st))) k
         = Some \<lparr>data = v, timestamp = t0, ttl = ttl0, key = k, size_e = int (length s)\<rparr>"
  using assms by (simp add: set_c_def Let_def Map_get_Map_set_same)

lemma get_hit:
  assumes "Map_get (cache st) k = Some e" "t \<le> timestamp e + ttl e"
  shows "fst (get t k st) = Some (data e)"
    and "Map_get (cache (snd (get t k st))) k = Some (e\<lparr>timestamp := t\<rparr>)"
  using assms by (simp_all add: get_def isExpired_def Map_get_Map_set_same)

lemma get_miss_expired:
  assumes "Map_get (cache st) k = Some e" "t > timestamp e + ttl e"
  shows "fst (get t k st) = None"
    and "Map_get (cache (snd (get t k st))) k = None"
  using assms by (simp_all add: get_def isExpired_def Map_get_Map_delete_same)

lemma get_miss_absent:
  assumes "Map_get (cache st) k = None"
  shows "fst (get t k st) = None"
    and "Map_get (cache (snd (get t k st))) k = None"
  using assms by (simp_all add: get_def)

lemma get_other_key:
  assumes "k' \<noteq> k"
  shows "Map_get (cache (snd (get t k' st))) k = Map_get (cache st) k"
  using assms
  by (simp add: get_def Map_get_Map_delete_other Map_get_Map_set_other split: option.splits)

lemma del_other_key:
  assumes "k' \<noteq> k"
  shows "Map_get (cache (snd (del k' st))) k = Map_get (cache st) k"
  using assms by (simp add: del_def Map_get_Map_delete_other split: option.splits)

lemma cleanup_loop_lookup:
  "Map_get (cache (cleanup_loop now xs st)) k =
     (if list_ex (\<lambda>p. fst p = k \<and> now > timestamp (snd p) + ttl (snd p)) xs then None
      else Map_get (cache st) k)"
proof (induction xs arbitrary: st)
  case Nil
  then show ?case by simp
next
  case (Cons x xs)
  obtain k1 e1 where x: "x = (k1, e1)" by (cases x)
  show ?case
    unfolding x
    by (simp add: Cons.IH Map_get_Map_delete_same Map_get_Map_delete_other)
qed

lemma cleanup_lookup_kept:
  assumes "distinct (map fst (cache st))" "Map_get (cache st) k = Some e"
    "now \<le> timestamp e + ttl e"
  shows "Map_get (cache (cleanup now st)) k = Some e"
proof -
  have "\<not> list_ex (\<lambda>p. fst p = k \<and> now > timestamp (snd p) + ttl (snd p)) (cache st)"
  proof
    assume "list_ex (\<lambda>p. fst p = k \<and> now > timestamp (snd p) + ttl (snd p)) (cache st)"
    then obtain p where p: "p \<in> set (cache st)" "fst p = k"
      "now > timestamp (snd p) + ttl (snd p)" by (auto simp: list_ex_iff)
    then have "(k, snd p) \<in> set (cache st)" by (cases p) auto
    with assms(1) have "Map_get (cache st) k = Some (snd p)" by (rule Map_get_distinct)
    with assms(2,3) p(3) show False by simp
  qed
  then show ?thesis using assms(2) by (simp add: cleanup_def cleanup_loop_lookup)
qed

lemma cleanup_lookup_cases:
  "Map_get (cache (cleanup now st)) k = None \<or>
   Map_get (cache (cleanup now st)) k = Map_get (cache st) k"
  by (simp add: cleanup_def cleanup_loop_lookup)

lemma cleanup_loop_filter:
  "\<exists>P. cache (cleanup_loop now xs st) = filter P (cache st)"
proof (induction xs arbitrary: st)
  case Nil
  show ?case by (rule exI[of _ "\<lambda>_. True"]) simp
next
  case (Cons x xs)
  obtain k1 e1 where x: "x = (k1, e1)" by (cases x)
  show ?case
  proof (cases "now > timestamp e1 + ttl e1")
    case True
    let ?st = "st\<lparr>currentSize := currentSize st - size_e e1, cache := Map_delete k1 (cache st)\<rparr>"
    from Cons.IH[of ?st] obtain P where "cache (cleanup_loop now xs ?st) = filter P (cache ?st)" ..
    then have "cache (cleanup_loop now (x # xs) st) = filter (\<lambda>p. fst p \<noteq> k1 \<and> P p) (cache st)"
      using True x by (simp add: Map_delete_def)
    then show ?thesis by blast
  next
    case False
    with Cons.IH[of st] x show ?thesis by simp
  qed
qed

lemma cleanup_distinct:
  "distinct (map fst (cache st)) \<Longrightarrow> distinct (map fst (cache (cleanup now st)))"
proof -
  assume d: "distinct (map fst (cache st))"
  from cleanup_loop_filter[of now "cache st" st]
  obtain P where "cache (cleanup now st) = filter P (cache st)" unfolding cleanup_def ..
  with d show ?thesis by (simp add: distinct_map_filter)
qed

lemma get_distinct:
  "distinct (map fst (cache st)) \<Longrightarrow> distinct (map fst (cache (snd (get t k st))))"
  by (simp add: get_def distinct_Map_delete distinct_Map_set split: option.splits)

lemma del_distinct:
  "distinct (map fst (cache st)) \<Longrightarrow> distinct (map fst (cache (snd (del k st))))"
  by (simp add: del_def distinct_Map_delete split: option.splits)

lemma evictLRU_distinct:
  "distinct (map fst (cache st)) \<Longrightarrow> distinct (map fst (cache (evictLRU st)))"
  by (simp add: evictLRU_def distinct_Map_delete split: list.splits prod.splits)

lemma evict_loop_distinct:
  "distinct (map fst (cache st)) \<Longrightarrow> distinct (map fst (cache (evict_loop maxSize sz st)))"
proof (induction maxSize sz st rule: evict_loop.induct)
  case (1 maxSize sz st)
  show ?case
  proof (cases "currentSize st + sz > maxSize \<and> cache st \<noteq> []")
    case True
    then show ?thesis using 1 by (subst evict_loop.simps) (simp add: evictLRU_distinct)
  next
    case False
    then show ?thesis using 1 by (subst evict_loop.simps) auto
  qed
qed

lemma set_c_distinct:
  "distinct (map fst (cache st)) \<Longrightarrow>
   distinct (map fst (cache (snd (set_c stringify maxSize now k v t st))))"
  by (simp add: set_c_def Let_def cleanup_distinct evict_loop_distinct distinct_Map_set
      split: option.splits)

text \<open>
  Between the \<open>set\<close> of \<open>k\<close> at \<open>t0\<close> and the \<open>get\<close> of \<open>k\<close> at \<open>t\<close>.
  An operation is not on \<open>k\<close> when it is a \<open>get\<close>, \<open>set\<close> or \<open>del\<close> of another key, a \<open>clear\<close> or
  a \<open>cleanup\<close>.
  An operation leaves the value of \<open>k\<close> undisturbed when it is no \<open>set\<close> or \<open>del\<close> of \<open>k\<close> and no
  \<open>clear\<close>, its clock reading is at most \<open>t\<close> and, for a \<open>get\<close> of \<open>k\<close> itself, at least \<open>t0\<close>.
  A \<open>set\<close> spares \<open>k\<close> in a state when its eviction loop leaves what the map holds under \<open>k\<close>
  after the sweep; a sequence spares \<open>k\<close> when each \<open>set\<close> in it does, in the state it runs in.
\<close>

fun not_on :: "jstring \<Rightarrow> 'v cache_op \<Rightarrow> bool" where
  "not_on k (Get k') = (k' \<noteq> k)"
| "not_on k (Set k' v t) = (k' \<noteq> k)"
| "not_on k (Del k') = (k' \<noteq> k)"
| "not_on k Clear = True"
| "not_on k Cleanup = True"

fun undisturbed :: "jstring \<Rightarrow> int \<Rightarrow> int \<Rightarrow> int \<times> 'v cache_op \<Rightarrow> bool" where
  "undisturbed k t0 t (now, Get k') = (now \<le> t \<and> (k' = k \<longrightarrow> t0 \<le> now))"
| "undisturbed k t0 t (now, Set k' v ttl') = (now \<le> t \<and> k' \<noteq> k)"
| "undisturbed k t0 t (now, Del k') = (now \<le> t \<and> k' \<noteq> k)"
| "undisturbed k t0 t (now, Clear) = False"
| "undisturbed k t0 t (now, Cleanup) = (now \<le> t)"

definition spares_op ::
  "('v \<Rightarrow> jstring option) \<Rightarrow> int \<Rightarrow> jstring \<Rightarrow> int \<times> 'v cache_op \<Rightarrow> 'v cache_state \<Rightarrow> bool" where
  "spares_op stringify maxSize k x st =
     (case snd x of
        Set k' v t \<Rightarrow>
          (case stringify v of
             None \<Rightarrow> True
           | Some s \<Rightarrow>
               Map_get (cache (evict_loop maxSize (int (length s)) (cleanup (fst x) st))) k
                 = Map_get (cache (cleanup (fst x) st)) k)
      | _ \<Rightarrow> True)"

fun spares ::
  "('v \<Rightarrow> jstring option) \<Rightarrow> int \<Rightarrow> jstring \<Rightarrow> (int \<times> 'v cache_op) list \<Rightarrow> 'v cache_state \<Rightarrow> bool" where
  "spares stringify maxSize k [] st = True"
| "spares stringify maxSize k (x # ops) st =
     (spares_op stringify maxSize k x st \<and>
      spares stringify maxSize k ops (step stringify maxSize x st))"

lemma evictLRU_lookup_cases:
  "Map_get (cache (evictLRU st)) k = None \<or>
   Map_get (cache (evictLRU st)) k = Map_get (cache st) k"
proof (cases "cache st = []")
  case True
  then show ?thesis by (simp add: evictLRU_def)
next
  case False
  then obtain k' e where "(k', e) \<in> set (cache st)" and
    ev: "evictLRU st = st\<lparr>currentSize := currentSize st - size_e e, cache := Map_delete k' (cache st)\<rparr>"
    by (rule evictLRU_cases)
  show ?thesis
    by (cases "k' = k") (simp_all add: ev Map_get_Map_delete_same Map_get_Map_delete_other)
qed

lemma evict_loop_lookup_cases:
  "Map_get (cache (evict_loop maxSize sz st)) k = None \<or>
   Map_get (cache (evict_loop maxSize sz st)) k = Map_get (cache st) k"
proof (induction maxSize sz st rule: evict_loop.induct)
  case (1 maxSize sz st)
  show ?case
  proof (cases "currentSize st + sz > maxSize \<and> cache st \<noteq> []")
    case True
    then have "evict_loop maxSize sz st = evict_loop maxSize sz (evictLRU st)"
      by (simp add: evict_loop_step)
    with "1.IH"[OF True] evictLRU_lookup_cases[of st k] show ?thesis by auto
  next
    case False
    then show ?thesis by (simp add: evict_loop_stop)
  qed
qed

lemma set_c_other_key_cases:
  assumes "k' \<noteq> k"
  shows "Map_get (cache (snd (set_c stringify maxSize now k' v t st))) k = None \<or>
         Map_get (cache (snd (set_c stringify maxSize now k' v t st))) k = Map_get (cache st) k"
proof (cases "stringify v")
  case None
  then show ?thesis using cleanup_lookup_cases[of now st k] by (simp add: set_c_def)
next
  case (Some s)
  with assms show ?thesis
    using cleanup_lookup_cases[of now st k]
      evict_loop_lookup_cases[of maxSize "int (length s)" "cleanup now st" k]
    by (auto simp: set_c_def Let_def Map_get_Map_set_other)
qed

lemma step_not_on_cases:
  assumes "not_on k (snd x)"
  shows "Map_get (cache (step stringify maxSize x st)) k = None \<or>
         Map_get (cache (step stringify maxSize x st)) k = Map_get (cache st) k"
proof -
  obtain now op where x: "x = (now, op)" by (cases x)
  show ?thesis
    using assms x cleanup_lookup_cases[of now st k]
    by (cases op) (simp_all add: get_other_key del_other_key set_c_other_key_cases clear_def)
qed

lemma run_not_on_cases:
  "list_all (\<lambda>x. not_on k (snd x)) ops \<Longrightarrow>
   Map_get (cache (run stringify maxSize ops st)) k = None \<or>
   Map_get (cache (run stringify maxSize ops st)) k = Map_get (cache st) k"
proof (induction ops arbitrary: st)
  case Nil
  then show ?case by simp
next
  case (Cons x ops)
  then have ok: "not_on k (snd x)" and rest: "list_all (\<lambda>x. not_on k (snd x)) ops" by simp_all
  from Cons.IH[OF rest, of "step stringify maxSize x st"]
    step_not_on_cases[OF ok, of stringify maxSize st]
  show ?case by auto
qed

lemma set_c_other_key_kept:
  assumes "k' \<noteq> k" "distinct (map fst (cache st))" "Map_get (cache st) k = Some e"
    "now \<le> timestamp e + ttl e" "spares_op stringify maxSize k (now, Set k' v t) st"
  shows "Map_get (cache (snd (set_c stringify maxSize now k' v t st))) k = Some e"
proof -
  have c: "Map_get (cache (cleanup now st)) k = Some e"
    using assms(2,3,4) by (rule cleanup_lookup_kept)
  show ?thesis
  proof (cases "stringify v")
    case None
    with c show ?thesis by (simp add: set_c_def)
  next
    case (Some s)
    with assms(5) c
    have "Map_get (cache (evict_loop maxSize (int (length s)) (cleanup now st))) k = Some e"
      by (simp add: spares_op_def)
    with Some assms(1) show ?thesis by (simp add: set_c_def Let_def Map_get_Map_set_other)
  qed
qed

lemma step_spared_kept:
  assumes d: "distinct (map fst (cache st))" and e: "Map_get (cache st) k = Some e"
    and live: "t \<le> timestamp e + ttl e" and t0: "t \<le> t0 + ttl e"
    and ok: "undisturbed k t0 t x" and sp: "spares_op stringify maxSize k x st"
  shows "\<exists>e'. Map_get (cache (step stringify maxSize x st)) k = Some e' \<and>
              data e' = data e \<and> ttl e' = ttl e \<and> t \<le> timestamp e' + ttl e'"
proof -
  obtain now op where x: "x = (now, op)" by (cases x)
  show ?thesis
  proof (cases op)
    case (Get k')
    show ?thesis
    proof (cases "k' = k")
      case True
      from ok x Get True have n: "now \<le> t" "t0 \<le> now" by simp_all
      from n live have "now \<le> timestamp e + ttl e" by simp
      with e have "Map_get (cache (snd (get now k st))) k = Some (e\<lparr>timestamp := now\<rparr>)"
        by (rule get_hit(2))
      with x Get True n t0 show ?thesis by simp
    next
      case False
      with x Get e live show ?thesis by (simp add: get_other_key)
    qed
  next
    case (Set k' v ttl')
    from ok x Set have n: "now \<le> t" "k' \<noteq> k" by simp_all
    from n live have "now \<le> timestamp e + ttl e" by simp
    with n(2) d e have "Map_get (cache (snd (set_c stringify maxSize now k' v ttl' st))) k = Some e"
      using sp x Set by (intro set_c_other_key_kept) simp_all
    with x Set live show ?thesis by simp
  next
    case (Del k')
    with ok x e live show ?thesis by (simp add: del_other_key)
  next
    case Clear
    with ok x show ?thesis by simp
  next
    case Cleanup
    from ok x Cleanup have "now \<le> t" by simp
    with live have "now \<le> timestamp e + ttl e" by simp
    with d e have "Map_get (cache (cleanup now st)) k = Some e" by (rule cleanup_lookup_kept)
    with x Cleanup live show ?thesis by simp
  qed
qed

lemma step_distinct:
  assumes "distinct (map fst (cache st))"
  shows "distinct (map fst (cache (step stringify maxSize x st)))"
proof -
  obtain now op where x: "x = (now, op)" by (cases x)
  show ?thesis using assms x
    by (cases op) (simp_all add: get_distinct del_distinct cleanup_distinct set_c_distinct clear_def)
qed

lemma run_spared_kept:
  "distinct (map fst (cache st)) \<Longrightarrow> Map_get (cache st) k = Some e \<Longrightarrow>
   t \<le> timestamp e + ttl e \<Longrightarrow> t \<le> t0 + ttl e \<Longrightarrow>
   list_all (undisturbed k t0 t) ops \<Longrightarrow> spares stringify maxSize k ops st \<Longrightarrow>
   \<exists>e'. Map_get (cache (run stringify maxSize ops st)) k = Some e' \<and>
        data e' = data e \<and> ttl e' = ttl e \<and> t \<le> timestamp e' + ttl e'"
proof (induction ops arbitrary: st e)
  case Nil
  then show ?case by simp
next
  case (Cons x ops)
  from Cons.prems have ok: "undisturbed k t0 t x" and rest: "list_all (undisturbed k t0 t) ops"
    and sp: "spares_op stringify maxSize k x st"
    and sps: "spares stringify maxSize k ops (step stringify maxSize x st)"
    by simp_all
  have d: "distinct (map fst (cache (step stringify maxSize x st)))"
    using Cons.prems(1) by (rule step_distinct)
  from step_spared_kept[OF Cons.prems(1,2,3,4) ok sp]
  obtain e' where e': "Map_get (cache (step stringify maxSize x st)) k = Some e'"
    and same: "data e' = data e" "ttl e' = ttl e" and live: "t \<le> timestamp e' + ttl e'"
    by blast
  from Cons.prems(4) same have t0: "t \<le> t0 + ttl e'" by simp
  from Cons.IH[OF d e' live t0 rest sps] same show ?case by simp
qed

text \<open>
  Claim C7, as the code has it. The claim allows operations on other keys between the
  \<open>set\<close> and the \<open>get\<close>, and a \<open>set\<close> of another key can evict the entry: with
  \<open>maxSize = 10\<close>, an 8-byte entry under \<open>k1\<close> is evicted by the \<open>set\<close> of an 8-byte entry
  under \<open>k2\<close>, and \<open>get\<close> of \<open>k1\<close> is absent long before its lifetime has elapsed. So it
  is after a \<open>clear\<close>, which is no operation on \<open>k1\<close> either.
\<close>

theorem C7_round_trip_counterexample:
  "(2::int) < 0 + 1000 \<and>
   fst (get 2 (js ''k1'')
         (run JSON_stringify 10 [(1, Set (js ''k2'') (JStr (js ''abcdef'')) 1000)]
            (snd (set_c JSON_stringify 10 0 (js ''k1'') (JStr (js ''123456'')) 1000 createCache))))
     \<noteq> Some (JStr (js ''123456'')) \<and>
   fst (get 2 (js ''k1'')
         (run JSON_stringify 10 [(1, Clear)]
            (snd (set_c JSON_stringify 10 0 (js ''k1'') (JStr (js ''123456'')) 1000 createCache))))
     \<noteq> Some (JStr (js ''123456''))"
  by (simp add: cache_eval)


text \<open>
  Claim C7, amended. For a value that has a JSON text, after \<open>set\<close> of \<open>k\<close> at \<open>t0\<close> with
  lifetime \<open>ttl0\<close> and any operations in between, \<open>get\<close> of \<open>k\<close> at \<open>t\<close>

    \<^item> returns the value when \<open>t \<le> t0 + ttl0\<close>, the keys of the map were distinct, the
      operations in between leave the value of \<open>k\<close> undisturbed (they are \<open>get\<close>, \<open>cleanup\<close>,
      and \<open>set\<close> and \<open>del\<close> of other keys, and read the clock no later than \<open>t\<close>) and every
      \<open>set\<close> among them spares \<open>k\<close>, whatever else it evicts;

    \<^item> returns absent and leaves no entry under \<open>k\<close> when \<open>t > t0 + ttl0\<close> and the
      operations in between are not on \<open>k\<close>: any \<open>set\<close>, \<open>get\<close> and \<open>del\<close> of other keys, evicting
      or not, \<open>clear\<close> and \<open>cleanup\<close>, at any clock readings.
\<close>

theorem C7_round_trip_amended:
  "(stringify v = Some s \<and> distinct (map fst (cache st0)) \<and>
    list_all (undisturbed k t0 t) ops \<and>
    spares stringify maxSize k ops (snd (set_c stringify maxSize t0 k v ttl0 st0)) \<and>
    t \<le> t0 + ttl0 \<longrightarrow>
      fst (get t k (run stringify maxSize ops
             (snd (set_c stringify maxSize t0 k v ttl0 st0)))) = Some v) \<and>
   (stringify v = Some s \<and> list_all (\<lambda>x. not_on k (snd x)) ops \<and> t > t0 + ttl0 \<longrightarrow>
      fst (get t k (run stringify maxSize ops
             (snd (set_c stringify maxSize t0 k v ttl0 st0)))) = None \<and>
      Map_get (cache (snd (get t k (run stringify maxSize ops
             (snd (set_c stringify maxSize t0 k v ttl0 st0)))))) k = None)"
proof (intro conjI impI)
  let ?e = "\<lparr>data = v, timestamp = t0, ttl = ttl0, key = k, size_e = int (length s)\<rparr>"
  let ?st1 = "snd (set_c stringify maxSize t0 k v ttl0 st0)"
  let ?st2 = "run stringify maxSize ops ?st1"
  {
    assume a: "stringify v = Some s \<and> distinct (map fst (cache st0)) \<and>
      list_all (undisturbed k t0 t) ops \<and>
      spares stringify maxSize k ops ?st1 \<and> t \<le> t0 + ttl0"
    then have e: "Map_get (cache ?st1) k = Some ?e" by (intro get_after_set) simp
    have d: "distinct (map fst (cache ?st1))" using a by (intro set_c_distinct) simp
    have "\<exists>e'. Map_get (cache ?st2) k = Some e' \<and> data e' = data ?e \<and> ttl e' = ttl ?e \<and>
               t \<le> timestamp e' + ttl e'"
      using d e a by (intro run_spared_kept[where ?t0.0 = t0]) simp_all
    then obtain e' where e': "Map_get (cache ?st2) k = Some e'" "data e' = v"
      "t \<le> timestamp e' + ttl e'" by auto
    from get_hit(1)[OF e'(1,3)] e'(2) show "fst (get t k ?st2) = Some v" by simp
  }
  {
    assume a: "stringify v = Some s \<and> list_all (\<lambda>x. not_on k (snd x)) ops \<and> t > t0 + ttl0"
    then have e: "Map_get (cache ?st1) k = Some ?e" by (intro get_after_set) simp
    from a have "list_all (\<lambda>x. not_on k (snd x)) ops" by simp
    from run_not_on_cases[OF this, of stringify maxSize ?st1] e
    consider "Map_get (cache ?st2) k = None" | "Map_get (cache ?st2) k = Some ?e" by auto
    then have r: "fst (get t k ?st2) = None \<and> Map_get (cache (snd (get t k ?st2))) k = None"
    proof cases
      case 1
      then show ?thesis by (simp add: get_miss_absent)
    next
      case 2
      then show ?thesis using a get_miss_expired[of ?st2 k ?e t] by simp
    qed
    from r show "fst (get t k ?st2) = None" ..
    from r show "Map_get (cache (snd (get t k ?st2))) k = None" ..
  }
qed

theorem C7_round_trip_amended_witness:
  "distinct (map fst (cache
      (snd (set_c JSON_stringify 10 0 (js ''k0'') (JStr (js ''ab'')) 100 createCache)))) \<and>
   list_all (undisturbed (js ''k1'') 1 7)
      [(2, Get (js ''k2'')), (3, Set (js ''k2'') (JStr (js ''wxy'')) 10), (4, Cleanup),
       (5, Del (js ''k3'')), (6, Get (js ''k1''))] \<and>
   spares JSON_stringify 10 (js ''k1'')
      [(2, Get (js ''k2'')), (3, Set (js ''k2'') (JStr (js ''wxy'')) 10), (4, Cleanup),
       (5, Del (js ''k3'')), (6, Get (js ''k1''))]
      (snd (set_c JSON_stringify 10 1 (js ''k1'') (JStr (js ''v'')) 10
        (snd (set_c JSON_stringify 10 0 (js ''k0'') (JStr (js ''ab'')) 100 createCache)))) \<and>
   list_all (\<lambda>x. not_on (js ''k1'') (snd x))
      [(1, Get (js ''k2'')), (2, Set (js ''k2'') (JStr (js ''w'')) 10), (3, Clear)] \<and>
   Map_get (cache (run JSON_stringify 10
            [(2, Get (js ''k2'')), (3, Set (js ''k2'') (JStr (js ''wxy'')) 10), (4, Cleanup),
             (5, Del (js ''k3'')), (6, Get (js ''k1''))]
            (snd (set_c JSON_stringify 10 1 (js ''k1'') (JStr (js ''v'')) 10
              (snd (set_c JSON_stringify 10 0 (js ''k0'') (JStr (js ''ab'')) 100 createCache))))))
     (js ''k0'') = None \<and>
   fst (get 7 (js ''k1'')
         (run JSON_stringify 10
            [(2, Get (js ''k2'')), (3, Set (js ''k2'') (JStr (js ''wxy'')) 10), (4, Cleanup),
             (5, Del (js ''k3'')), (6, Get (js ''k1''))]
            (snd (set_c JSON_stringify 10 1 (js ''k1'') (JStr (js ''v'')) 10
              (snd (set_c JSON_stringify 10 0 (js ''k0'') (JStr (js ''ab'')) 100 createCache))))))
     = Some (JStr (js ''v'')) \<and>
   fst (get 11 (js ''k1'')
         (run JSON_stringify 4
            [(1, Get (js ''k2'')), (2, Set (js ''k2'') (JStr (js ''w'')) 10), (3, Clear)]
            (snd (set_c JSON_stringify 4 0 (js ''k1'') (JStr (js ''v'')) 10 createCache))))
     = None"
  using
    C7_round_trip_amended[where stringify = JSON_stringify and v = "JStr (js ''v'')"
      and s = "QuoteJSONString (js ''v'')"
      and ?st0.0 = "snd (set_c JSON_stringify 10 0 (js ''k0'') (JStr (js ''ab'')) 100 createCache)"
      and k = "js ''k1''"
      and ops = "[(2, Get (js ''k2'')), (3, Set (js ''k2'') (JStr (js ''wxy'')) 10), (4, Cleanup),
             (5, Del (js ''k3'')), (6, Get (js ''k1''))]"
      and t = 7 and ?t0.0 = 1 and ?ttl0.0 = 10 and maxSize = 10]
    C7_round_trip_amended[where stringify = JSON_stringify and v = "JStr (js ''v'')"
      and s = "QuoteJSONString (js ''v'')" and ?st0.0 = createCache and k = "js ''k1''"
      and ops = "[(1, Get (js ''k2'')), (2, Set (js ''k2'') (JStr (js ''w'')) 10), (3, Clear)]"
      and t = 11 and ?t0.0 = 0 and ?ttl0.0 = 10 and maxSize = 4]
  by (simp add: cache_eval spares_op_def)

section \<open>A hit extends the lifetime of an entry\<close>

text \<open>A sequence of \<open>get\<close> calls on one key, and clock readings spaced at most \<open>d\<close> apart.\<close>

fun get_all :: "int list \<Rightarrow> jstring \<Rightarrow> 'v cache_state \<Rightarrow> 'v option list" where
  "get_all [] k st = []"
| "get_all (t # ts) k st = fst (get t k st) # get_all ts k (snd (get t k st))"

fun spaced :: "int \<Rightarrow> int \<Rightarrow> int list \<Rightarrow> bool" where
  "spaced d t0 [] = True"
| "spaced d t0 (t # ts) = (t \<le> t0 + d \<and> spaced d t ts)"

lemma get_all_hits:
  "Map_get (cache st) k = Some e \<Longrightarrow> spaced (ttl e) (timestamp e) ts \<Longrightarrow>
   list_all (\<lambda>r. r = Some (data e)) (get_all ts k st)"
proof (induction ts arbitrary: st e)
  case Nil
  then show ?case by simp
next
  case (Cons t ts)
  from Cons.prems have le: "t \<le> timestamp e + ttl e" and sp: "spaced (ttl e) t ts" by simp_all
  have 1: "fst (get t k st) = Some (data e)"
    and 2: "Map_get (cache (snd (get t k st))) k = Some (e\<lparr>timestamp := t\<rparr>)"
    using get_hit[OF Cons.prems(1) le] by simp_all
  from Cons.IH[OF 2] sp have "list_all (\<lambda>r. r = Some (data e)) (get_all ts k (snd (get t k st)))"
    by simp
  with 1 show ?case by simp
qed


text \<open>
  Claim C10. For a value that has a JSON text, after \<open>set\<close> of \<open>k\<close> at \<open>t0\<close> with lifetime
  \<open>ttl0\<close>: a \<open>get\<close> at \<open>t1 \<le> t0 + ttl0\<close> returns the value, and the next \<open>get\<close>, at \<open>t2\<close>,
  returns it exactly when \<open>t2 \<le> t1 + ttl0\<close>, whatever \<open>t0\<close> was; and when the clock
  readings of a sequence of \<open>get\<close> calls are each at most \<open>ttl0\<close> after the one before
  (the first after \<open>t0\<close>), every one of them returns the value.
\<close>

theorem C10_hit_extends_lifetime:
  assumes "stringify v = Some s"
  shows "(t1 \<le> t0 + ttl0 \<longrightarrow>
            fst (get t1 k (snd (set_c stringify maxSize t0 k v ttl0 st0))) = Some v \<and>
            fst (get t2 k (snd (get t1 k (snd (set_c stringify maxSize t0 k v ttl0 st0)))))
              = (if t2 \<le> t1 + ttl0 then Some v else None)) \<and>
         (spaced ttl0 t0 ts \<longrightarrow>
            list_all (\<lambda>r. r = Some v)
              (get_all ts k (snd (set_c stringify maxSize t0 k v ttl0 st0))))"
proof (intro conjI impI)
  let ?e = "\<lparr>data = v, timestamp = t0, ttl = ttl0, key = k, size_e = int (length s)\<rparr>"
  let ?st1 = "snd (set_c stringify maxSize t0 k v ttl0 st0)"
  have e: "Map_get (cache ?st1) k = Some ?e" using assms(1) by (rule get_after_set)
  {
    assume le: "t1 \<le> t0 + ttl0"
    from get_hit[OF e, of t1] le
    have 1: "fst (get t1 k ?st1) = Some v"
      and 2: "Map_get (cache (snd (get t1 k ?st1))) k = Some (?e\<lparr>timestamp := t1\<rparr>)"
      by simp_all
    from 1 show "fst (get t1 k ?st1) = Some v" .
    show "fst (get t2 k (snd (get t1 k ?st1))) = (if t2 \<le> t1 + ttl0 then Some v else None)"
    proof (cases "t2 \<le> t1 + ttl0")
      case True
      then show ?thesis using get_hit(1)[OF 2, of t2] by simp
    next
      case False
      then show ?thesis using get_miss_expired(1)[OF 2, of t2] by simp
    qed
  }
  {
    assume "spaced ttl0 t0 ts"
    then show "list_all (\<lambda>r. r = Some v) (get_all ts k ?st1)"
      using get_all_hits[OF e, of ts] by simp
  }
qed


theorem C10_hit_extends_lifetime_witness:
  "fst (get 8 (js ''k'') (snd (set_c JSON_stringify 100 0 (js ''k'') (JStr (js ''v'')) 10 createCache)))
     = Some (JStr (js ''v'')) \<and>
   fst (get 17 (js ''k'')
         (snd (get 8 (js ''k'')
            (snd (set_c JSON_stringify 100 0 (js ''k'') (JStr (js ''v'')) 10 createCache)))))
     = Some (JStr (js ''v'')) \<and>
   list_all (\<lambda>r. r = Some (JStr (js ''v'')))
     (get_all [8, 17, 25, 35, 44] (js ''k'')
        (snd (set_c JSON_stringify 100 0 (js ''k'') (JStr (js ''v'')) 10 createCache)))"
  using
    C10_hit_extends_lifetime[where stringify = JSON_stringify and v = "JStr (js ''v'')"
      and s = "QuoteJSONString (js ''v'')" and ?t1.0 = 8 and ?t0.0 = 0 and ?ttl0.0 = 10
      and ?t2.0 = 17 and ts = "[8, 17, 25, 35, 44]" and k = "js ''k''" and maxSize = 100
      and ?st0.0 = createCache]
  by (simp add: JSON_stringify_JStr)

section \<open>The order of eviction\<close>

lemma evictLRU_oldest:
  assumes "cache st \<noteq> []" "distinct (map fst (cache st))"
  obtains p where "p \<in> set (cache st)"
    and "\<forall>q \<in> set (cache st). timestamp (snd p) \<le> timestamp (snd q)"
    and "set (cache (evictLRU st)) = set (cache st) - {p}"
    and "currentSize (evictLRU st) = currentSize st - size_e (snd p)"
proof -
  from assms(1) obtain k e where mem: "(k, e) \<in> set (cache st)"
    and least: "\<forall>p \<in> set (cache st). timestamp e \<le> timestamp (snd p)"
    and ev: "evictLRU st = st\<lparr>currentSize := currentSize st - size_e e, cache := Map_delete k (cache st)\<rparr>"
    by (rule evictLRU_cases)
  have uniq: "p = (k, e)" if "p \<in> set (cache st)" "fst p = k" for p
  proof -
    from that have "(k, snd p) \<in> set (cache st)" by (cases p) auto
    with assms(2) have "Map_get (cache st) k = Some (snd p)" by (rule Map_get_distinct)
    moreover from assms(2) mem have "Map_get (cache st) k = Some e" by (rule Map_get_distinct)
    ultimately show "p = (k, e)" using that(2) by (cases p) auto
  qed
  have "{p \<in> set (cache st). fst p \<noteq> k} = set (cache st) - {(k, e)}"
  proof (intro set_eqI iffI)
    fix x assume "x \<in> {p \<in> set (cache st). fst p \<noteq> k}"
    then show "x \<in> set (cache st) - {(k, e)}" by auto
  next
    fix x assume "x \<in> set (cache st) - {(k, e)}"
    then have xs: "x \<in> set (cache st)" and ne: "x \<noteq> (k, e)" by simp_all
    have "fst x \<noteq> k"
    proof
      assume "fst x = k"
      with xs have "x = (k, e)" by (rule uniq)
      with ne show False by contradiction
    qed
    with xs show "x \<in> {p \<in> set (cache st). fst p \<noteq> k}" by simp
  qed
  then have s: "set (Map_delete k (cache st)) = set (cache st) - {(k, e)}"
    by (simp only: set_Map_delete)
  have 1: "set (cache (evictLRU st)) = set (cache st) - {(k, e)}"
    by (simp add: ev s)
  have 2: "currentSize (evictLRU st) = currentSize st - size_e (snd (k, e))"
    by (simp add: ev)
  have 3: "\<forall>q \<in> set (cache st). timestamp (snd (k, e)) \<le> timestamp (snd q)"
    using least by simp
  from mem 3 1 2 show ?thesis by (rule that)
qed

lemma evictLRU_shrinks:
  assumes "cache st \<noteq> []"
  shows "length (cache (evictLRU st)) < length (cache st)"
proof -
  from assms obtain k e where mem: "(k, e) \<in> set (cache st)"
    and ev: "evictLRU st = st\<lparr>currentSize := currentSize st - size_e e, cache := Map_delete k (cache st)\<rparr>"
    by (rule evictLRU_cases)
  have "length (filter (\<lambda>p. fst p \<noteq> k) (cache st)) < length (cache st)"
    using mem by (intro length_filter_less[of "(k, e)"]) auto
  then show ?thesis by (simp add: ev Map_delete_def)
qed

lemma evict_loop_length:
  "length (cache (evict_loop maxSize sz st)) \<le> length (cache st)"
proof (induction maxSize sz st rule: evict_loop.induct)
  case (1 maxSize sz st)
  show ?case
  proof (cases "currentSize st + sz > maxSize \<and> cache st \<noteq> []")
    case True
    with 1 evictLRU_shrinks[of st] show ?thesis by (simp add: evict_loop_step)
  next
    case False
    then show ?thesis by (simp add: evict_loop_stop)
  qed
qed

lemma evict_loop_fixed:
  assumes "cache (evict_loop maxSize sz st) = cache st"
  shows "evict_loop maxSize sz st = st"
proof (cases "currentSize st + sz > maxSize \<and> cache st \<noteq> []")
  case True
  then have "evict_loop maxSize sz st = evict_loop maxSize sz (evictLRU st)"
    by (simp add: evict_loop_step)
  with evict_loop_length[of maxSize sz "evictLRU st"] evictLRU_shrinks[of st] True assms
  show ?thesis by simp
next
  case False
  then show ?thesis by (rule evict_loop_stop)
qed

lemma evict_loop_order:
  "distinct (map fst (cache st)) \<Longrightarrow>
   set (cache (evict_loop maxSize sz st)) \<subseteq> set (cache st) \<and>
   (\<forall>p \<in> set (cache st) - set (cache (evict_loop maxSize sz st)).
      \<forall>q \<in> set (cache (evict_loop maxSize sz st)). timestamp (snd p) \<le> timestamp (snd q)) \<and>
   (cache (evict_loop maxSize sz st) \<noteq> cache st \<longrightarrow>
      (\<exists>p \<in> set (cache st) - set (cache (evict_loop maxSize sz st)).
         currentSize (evict_loop maxSize sz st) + size_e (snd p) + sz > maxSize))"
proof (induction maxSize sz st rule: evict_loop.induct)
  case (1 maxSize sz st)
  show ?case
  proof (cases "currentSize st + sz > maxSize \<and> cache st \<noteq> []")
    case False
    then have "evict_loop maxSize sz st = st" by (rule evict_loop_stop)
    then show ?thesis by simp
  next
    case True
    let ?st1 = "evictLRU st"
    let ?st' = "evict_loop maxSize sz ?st1"
    have unf: "evict_loop maxSize sz st = ?st'" using True by (simp add: evict_loop_step)
    from True have ne: "cache st \<noteq> []" and over: "currentSize st + sz > maxSize"
      by simp_all
    from ne "1.prems" obtain p where p: "p \<in> set (cache st)"
      and least: "\<forall>q \<in> set (cache st). timestamp (snd p) \<le> timestamp (snd q)"
      and s1: "set (cache ?st1) = set (cache st) - {p}"
      and c1: "currentSize ?st1 = currentSize st - size_e (snd p)"
      by (rule evictLRU_oldest)
    have d1: "distinct (map fst (cache ?st1))" using "1.prems" by (rule evictLRU_distinct)
    note IH = "1.IH"[OF True d1]
    have sub: "set (cache ?st') \<subseteq> set (cache ?st1)"
      by (rule IH[THEN conjunct1])
    have ord: "\<forall>p \<in> set (cache ?st1) - set (cache ?st').
                  \<forall>q \<in> set (cache ?st'). timestamp (snd p) \<le> timestamp (snd q)"
      by (rule IH[THEN conjunct2, THEN conjunct1])
    have last: "cache ?st' \<noteq> cache ?st1 \<longrightarrow>
                  (\<exists>p \<in> set (cache ?st1) - set (cache ?st').
                     currentSize ?st' + size_e (snd p) + sz > maxSize)"
      by (rule IH[THEN conjunct2, THEN conjunct2])
    have A: "set (cache ?st') \<subseteq> set (cache st)" using sub s1 by blast
    have B: "\<forall>x \<in> set (cache st) - set (cache ?st').
               \<forall>q \<in> set (cache ?st'). timestamp (snd x) \<le> timestamp (snd q)"
    proof (intro ballI)
      fix x q assume x: "x \<in> set (cache st) - set (cache ?st')" and q: "q \<in> set (cache ?st')"
      show "timestamp (snd x) \<le> timestamp (snd q)"
      proof (cases "x = p")
        case True
        from q A have "q \<in> set (cache st)" by blast
        with least True show ?thesis by simp
      next
        case False
        with x s1 have "x \<in> set (cache ?st1) - set (cache ?st')" by blast
        with ord q show ?thesis by blast
      qed
    qed
    have C: "\<exists>x \<in> set (cache st) - set (cache ?st').
               currentSize ?st' + size_e (snd x) + sz > maxSize"
    proof (cases "cache ?st' = cache ?st1")
      case True
      then have eq: "?st' = ?st1" by (rule evict_loop_fixed)
      have "p \<notin> set (cache ?st1)" using s1 by blast
      then have "p \<in> set (cache st) - set (cache ?st')"
        using p by (simp only: eq) blast
      moreover have "currentSize ?st' + size_e (snd p) + sz > maxSize"
        using c1 over by (simp only: eq)
      ultimately show ?thesis by blast
    next
      case False
      with last obtain x where "x \<in> set (cache ?st1) - set (cache ?st')"
        "currentSize ?st' + size_e (snd x) + sz > maxSize" by blast
      with s1 show ?thesis by blast
    qed
    show ?thesis unfolding unf using A B C by blast
  qed
qed


lemma three_inserts:
  assumes k: "k1 \<noteq> k2" "k1 \<noteq> k3" "k2 \<noteq> k3"
    and s: "stringify v1 = Some s1" "stringify v2 = Some s2" "stringify v3 = Some s3"
    and l: "length s1 = 40" "length s2 = 40" "length s3 = 40"
    and t: "t1 \<le> t2" "t3 \<le> t2 + ttl2"
  shows "cache (run stringify 100
            [(t1, Set k1 v1 ttl1), (t2, Set k2 v2 ttl2), (t3, Set k3 v3 ttl3)] createCache)
         = [(k2, \<lparr>data = v2, timestamp = t2, ttl = ttl2, key = k2, size_e = 40\<rparr>),
            (k3, \<lparr>data = v3, timestamp = t3, ttl = ttl3, key = k3, size_e = 40\<rparr>)]"
  using assms by (simp add: cache_eval)

lemma two_inserts:
  assumes k: "k1 \<noteq> k2"
    and s: "stringify v1 = Some s1" "stringify v2 = Some s2"
    and l: "length s1 = 40" "length s2 = 40"
    and t: "t2 \<le> t1 + ttl1"
  shows "cache (run stringify 100 [(t1, Set k1 v1 ttl1), (t2, Set k2 v2 ttl2)] createCache)
         = [(k1, \<lparr>data = v1, timestamp = t1, ttl = ttl1, key = k1, size_e = 40\<rparr>),
            (k2, \<lparr>data = v2, timestamp = t2, ttl = ttl2, key = k2, size_e = 40\<rparr>)]"
  using assms by (simp add: cache_eval)



text \<open>
  The last access of a key in a sequence of operations is the clock reading of the last
  operation that is a \<open>get\<close> of the key or a \<open>set\<close> of the key with a value that has a
  JSON text (a \<open>set\<close> of another value stores nothing). For a key that is in the map
  at the end, every \<open>get\<close> of it after its last \<open>set\<close> was a hit.
\<close>

fun touches :: "('v \<Rightarrow> jstring option) \<Rightarrow> jstring \<Rightarrow> 'v cache_op \<Rightarrow> bool" where
  "touches stringify k (Get k') = (k' = k)"
| "touches stringify k (Set k' v t) = (k' = k \<and> stringify v \<noteq> None)"
| "touches stringify k (Del k') = False"
| "touches stringify k Clear = False"
| "touches stringify k Cleanup = False"

fun last_access ::
  "('v \<Rightarrow> jstring option) \<Rightarrow> jstring \<Rightarrow> (int \<times> 'v cache_op) list \<Rightarrow> int option" where
  "last_access stringify k [] = None"
| "last_access stringify k (x # ops) =
     (case last_access stringify k ops of
        Some t \<Rightarrow> Some t
      | None \<Rightarrow> if touches stringify k (snd x) then Some (fst x) else None)"

lemma Map_set_fresh: "Map_get m k = None \<Longrightarrow> Map_set k e m = m @ [(k, e)]"
  by (induction m) (auto split: if_splits)

lemma set_Map_set_distinct:
  "distinct (map fst m) \<Longrightarrow> p \<in> set (Map_set k e m) \<Longrightarrow>
   p = (k, e) \<or> (p \<in> set m \<and> fst p \<noteq> k)"
  by (induction m) (auto split: if_splits simp: rev_image_eqI)

lemma Map_delete_distinct:
  assumes "distinct (map fst m)" "(k, e) \<in> set m"
  shows "Map_delete k m = filter (\<lambda>q. q \<noteq> (k, e)) m"
  unfolding Map_delete_def
proof (rule filter_cong[OF refl])
  fix x assume x: "x \<in> set m"
  show "(fst x \<noteq> k) = (x \<noteq> (k, e))"
  proof
    assume "fst x \<noteq> k" then show "x \<noteq> (k, e)" by auto
  next
    assume ne: "x \<noteq> (k, e)"
    show "fst x \<noteq> k"
    proof
      assume "fst x = k"
      with x have "(k, snd x) \<in> set m" by (cases x) auto
      with assms(1) have "Map_get m k = Some (snd x)" by (rule Map_get_distinct)
      moreover from assms have "Map_get m k = Some e" by (rule Map_get_distinct)
      ultimately have "x = (k, e)" using \<open>fst x = k\<close> by (cases x) auto
      with ne show False by contradiction
    qed
  qed
qed

text \<open>
  One round of eviction removes the first entry of the stable sort by timestamp: an
  entry of the least timestamp, the first in the order of the map among those of that
  timestamp.
\<close>

lemma evictLRU_first:
  assumes "cache st \<noteq> []"
  obtains p where "p \<in> set (cache st)"
    and "\<forall>q \<in> set (cache st). timestamp (snd p) \<le> timestamp (snd q)"
    and "hd (filter (\<lambda>q. timestamp (snd q) = timestamp (snd p)) (cache st)) = p"
    and "evictLRU st = st\<lparr>currentSize := currentSize st - size_e (snd p),
                          cache := Map_delete (fst p) (cache st)\<rparr>"
proof -
  let ?f = "\<lambda>p::jstring \<times> 'a CacheEntry. timestamp (snd p)"
  let ?s = "sort_key ?f (cache st)"
  from assms have "?s \<noteq> []" by (metis length_0_conv length_sort)
  then obtain p r where s: "?s = p # r" by (cases ?s) auto
  have "p \<in> set ?s" by (simp add: s)
  then have mem: "p \<in> set (cache st)" by simp
  have "sorted (map ?f ?s)" by (rule sorted_sort_key)
  then have "\<forall>q \<in> set ?s. ?f p \<le> ?f q" by (auto simp: s)
  then have least: "\<forall>q \<in> set (cache st). timestamp (snd p) \<le> timestamp (snd q)" by simp
  have "filter (\<lambda>q. ?f q = ?f p) (cache st) = filter (\<lambda>q. ?f q = ?f p) ?s"
    by (rule sort_key_stable[symmetric])
  also have "\<dots> = p # filter (\<lambda>q. ?f q = ?f p) r" by (simp add: s)
  finally have first: "hd (filter (\<lambda>q. timestamp (snd q) = timestamp (snd p)) (cache st)) = p"
    by simp
  have ev: "evictLRU st = st\<lparr>currentSize := currentSize st - size_e (snd p),
                          cache := Map_delete (fst p) (cache st)\<rparr>"
    by (cases p) (simp add: evictLRU_def s)
  from mem least first ev show ?thesis by (rule that)
qed

lemma evictLRU_round:
  assumes "distinct (map fst (cache st))" "cache st \<noteq> []"
  shows "\<exists>p \<in> set (cache st).
           (\<forall>q \<in> set (cache st). timestamp (snd p) \<le> timestamp (snd q)) \<and>
           hd (filter (\<lambda>q. timestamp (snd q) = timestamp (snd p)) (cache st)) = p \<and>
           cache (evictLRU st) = filter (\<lambda>q. q \<noteq> p) (cache st) \<and>
           currentSize (evictLRU st) = currentSize st - size_e (snd p)"
proof -
  from assms(2) obtain p where mem: "p \<in> set (cache st)"
    and least: "\<forall>q \<in> set (cache st). timestamp (snd p) \<le> timestamp (snd q)"
    and first: "hd (filter (\<lambda>q. timestamp (snd q) = timestamp (snd p)) (cache st)) = p"
    and ev: "evictLRU st = st\<lparr>currentSize := currentSize st - size_e (snd p),
                          cache := Map_delete (fst p) (cache st)\<rparr>"
    by (rule evictLRU_first)
  from mem have "(fst p, snd p) \<in> set (cache st)" by simp
  with assms(1) have "Map_delete (fst p) (cache st) = filter (\<lambda>q. q \<noteq> (fst p, snd p)) (cache st)"
    by (rule Map_delete_distinct)
  then have c: "cache (evictLRU st) = filter (\<lambda>q. q \<noteq> p) (cache st)" by (simp add: ev)
  have s: "currentSize (evictLRU st) = currentSize st - size_e (snd p)" by (simp add: ev)
  from mem least first c s show ?thesis by blast
qed

text \<open>
  The eviction loop runs \<open>evictLRU\<close> a least number of times: the guard holds before each
  round and fails after the last.
\<close>

lemma evict_loop_least:
  "\<exists>n. evict_loop maxSize sz st = (evictLRU ^^ n) st \<and>
       (\<forall>m<n. currentSize ((evictLRU ^^ m) st) + sz > maxSize \<and> cache ((evictLRU ^^ m) st) \<noteq> []) \<and>
       (currentSize ((evictLRU ^^ n) st) + sz \<le> maxSize \<or> cache ((evictLRU ^^ n) st) = [])"
proof (induction maxSize sz st rule: evict_loop.induct)
  case (1 maxSize sz st)
  show ?case
  proof (cases "currentSize st + sz > maxSize \<and> cache st \<noteq> []")
    case True
    from "1.IH"[OF True] obtain n where
      e: "evict_loop maxSize sz (evictLRU st) = (evictLRU ^^ n) (evictLRU st)"
      and b: "\<forall>m<n. currentSize ((evictLRU ^^ m) (evictLRU st)) + sz > maxSize \<and>
                    cache ((evictLRU ^^ m) (evictLRU st)) \<noteq> []"
      and f: "currentSize ((evictLRU ^^ n) (evictLRU st)) + sz \<le> maxSize \<or>
              cache ((evictLRU ^^ n) (evictLRU st)) = []"
      by blast
    have sw: "(evictLRU ^^ m) (evictLRU st) = (evictLRU ^^ Suc m) st" for m
      by (simp add: funpow_swap1)
    have 1: "evict_loop maxSize sz st = (evictLRU ^^ Suc n) st"
      using True e by (simp only: sw[symmetric]) (simp add: evict_loop_step)
    have 2: "\<forall>m<Suc n. currentSize ((evictLRU ^^ m) st) + sz > maxSize \<and>
                        cache ((evictLRU ^^ m) st) \<noteq> []"
    proof (intro allI impI)
      fix m assume m: "m < Suc n"
      show "currentSize ((evictLRU ^^ m) st) + sz > maxSize \<and> cache ((evictLRU ^^ m) st) \<noteq> []"
      proof (cases m)
        case 0
        with True show ?thesis by simp
      next
        case (Suc m')
        with m have "m' < n" by simp
        with b have "currentSize ((evictLRU ^^ m') (evictLRU st)) + sz > maxSize \<and>
                    cache ((evictLRU ^^ m') (evictLRU st)) \<noteq> []" by blast
        then have "currentSize ((evictLRU ^^ Suc m') st) + sz > maxSize \<and>
                    cache ((evictLRU ^^ Suc m') st) \<noteq> []" unfolding sw .
        then show ?thesis unfolding Suc .
      qed
    qed
    have 3: "currentSize ((evictLRU ^^ Suc n) st) + sz \<le> maxSize \<or>
             cache ((evictLRU ^^ Suc n) st) = []"
      using f unfolding sw .
    from 1 2 3 show ?thesis by blast
  next
    case False
    then have "evict_loop maxSize sz st = (evictLRU ^^ 0) st" by (simp add: evict_loop_stop)
    moreover from False have "currentSize ((evictLRU ^^ 0) st) + sz \<le> maxSize \<or>
             cache ((evictLRU ^^ 0) st) = []" by auto
    ultimately show ?thesis by blast
  qed
qed

text \<open>
  The counter is right in a state when the keys are distinct and \<open>currentSize\<close> is the sum
  of the sizes of the entries in the map. Deleting an entry and subtracting its size keeps
  it right, so the sweep and the rounds of eviction do.
\<close>

definition counted :: "'v cache_state \<Rightarrow> bool" where
  "counted st \<longleftrightarrow> distinct (map fst (cache st)) \<and> currentSize st = sizes (cache st)"

lemma counted_delete:
  assumes "counted st" "(k, e) \<in> set (cache st)"
  shows "counted (st\<lparr>currentSize := currentSize st - size_e e, cache := Map_delete k (cache st)\<rparr>)"
  using assms by (simp add: counted_def distinct_Map_delete sizes_Map_delete)

lemma evictLRU_counted: "counted st \<Longrightarrow> counted (evictLRU st)"
proof (rule evictLRU_keeps[where P = counted])
  fix st :: "'a cache_state" and k e
  assume "counted st" "(k, e) \<in> set (cache st)"
  then show "counted (st\<lparr>currentSize := currentSize st - size_e e, cache := Map_delete k (cache st)\<rparr>)"
    by (rule counted_delete)
qed

lemma funpow_evictLRU_counted: "counted st \<Longrightarrow> counted ((evictLRU ^^ m) st)"
  by (induction m) (simp_all add: evictLRU_counted)

lemma cleanup_counted:
  assumes "counted st"
  shows "counted (cleanup now st)"
proof (rule cleanup_keeps[where P = counted])
  fix st :: "'a cache_state" and k e
  assume "counted st" "(k, e) \<in> set (cache st)"
  then show "counted (st\<lparr>currentSize := currentSize st - size_e e, cache := Map_delete k (cache st)\<rparr>)"
    by (rule counted_delete)
qed (use assms in \<open>simp_all add: counted_def\<close>)

lemma set_c_rounds:
  assumes s: "stringify v = Some s" and d: "distinct (map fst (cache st))"
    and c: "currentSize st = sizes (cache st)"
    and fresh: "Map_get (cache (cleanup now st)) k = None"
  shows "\<exists>n. cache (snd (set_c stringify maxSize now k v ttl0 st))
              = cache ((evictLRU ^^ n) (cleanup now st))
                @ [(k, \<lparr>data = v, timestamp = now, ttl = ttl0, key = k, size_e = int (length s)\<rparr>)] \<and>
            (\<forall>m<n. sizes (cache ((evictLRU ^^ m) (cleanup now st))) + int (length s) > maxSize \<and>
                   cache ((evictLRU ^^ m) (cleanup now st)) \<noteq> []) \<and>
            (sizes (cache ((evictLRU ^^ n) (cleanup now st))) + int (length s) \<le> maxSize \<or>
             cache ((evictLRU ^^ n) (cleanup now st)) = [])"
proof -
  let ?st1 = "cleanup now st"
  let ?sz = "int (length s)"
  from d c have "counted st" by (simp add: counted_def)
  then have c1: "counted ?st1" by (rule cleanup_counted)
  have cnt: "currentSize ((evictLRU ^^ m) ?st1) = sizes (cache ((evictLRU ^^ m) ?st1))" for m
    using funpow_evictLRU_counted[OF c1, of m] by (simp add: counted_def)
  from evict_loop_least[of maxSize ?sz ?st1] obtain n where
    e: "evict_loop maxSize ?sz ?st1 = (evictLRU ^^ n) ?st1"
    and b: "\<forall>m<n. currentSize ((evictLRU ^^ m) ?st1) + ?sz > maxSize \<and> cache ((evictLRU ^^ m) ?st1) \<noteq> []"
    and f: "currentSize ((evictLRU ^^ n) ?st1) + ?sz \<le> maxSize \<or> cache ((evictLRU ^^ n) ?st1) = []"
    by blast
  from evict_loop_lookup_cases[of maxSize ?sz ?st1 k] fresh
  have "Map_get (cache (evict_loop maxSize ?sz ?st1)) k = None" by auto
  then have g: "Map_get (cache ((evictLRU ^^ n) ?st1)) k = None" by (simp only: e)
  have 1: "cache (snd (set_c stringify maxSize now k v ttl0 st))
              = cache ((evictLRU ^^ n) ?st1)
                @ [(k, \<lparr>data = v, timestamp = now, ttl = ttl0, key = k, size_e = ?sz\<rparr>)]"
    using s g by (simp add: set_c_def Let_def e Map_set_fresh)
  have 2: "\<forall>m<n. sizes (cache ((evictLRU ^^ m) ?st1)) + ?sz > maxSize \<and> cache ((evictLRU ^^ m) ?st1) \<noteq> []"
    using b by (simp only: cnt)
  have 3: "sizes (cache ((evictLRU ^^ n) ?st1)) + ?sz \<le> maxSize \<or> cache ((evictLRU ^^ n) ?st1) = []"
    using f by (simp only: cnt)
  from 1 2 3 show ?thesis by blast
qed

lemma run_append:
  "run stringify maxSize (ops @ [x]) st = step stringify maxSize x (run stringify maxSize ops st)"
  by (induction ops arbitrary: st) simp_all

lemma last_access_append:
  "last_access stringify k (ops @ [x]) =
     (if touches stringify k (snd x) then Some (fst x) else last_access stringify k ops)"
  by (induction ops) (simp_all split: option.splits)

lemma run_distinct:
  "distinct (map fst (cache st)) \<Longrightarrow> distinct (map fst (cache (run stringify maxSize ops st)))"
  by (induction ops arbitrary: st) (simp_all add: step_distinct)

lemma cleanup_subset: "set (cache (cleanup now st)) \<subseteq> set (cache st)"
proof -
  from cleanup_loop_filter[of now "cache st" st]
  obtain P where "cache (cleanup now st) = filter P (cache st)" unfolding cleanup_def ..
  then show ?thesis by simp
qed

lemma evict_loop_subset:
  "distinct (map fst (cache st)) \<Longrightarrow> set (cache (evict_loop maxSize sz st)) \<subseteq> set (cache st)"
  by (rule evict_loop_order[THEN conjunct1])

text \<open>
  The timestamp of an entry in the map is the last access of its key: \<open>set\<close> stores the
  clock reading, a hit of \<open>get\<close> replaces it by the clock reading, and nothing else writes it.
\<close>

lemma step_last_access:
  assumes d: "distinct (map fst (cache st))"
    and inv: "\<And>p. p \<in> set (cache st) \<Longrightarrow> last_access stringify (fst p) ops = Some (timestamp (snd p))"
    and p: "p \<in> set (cache (step stringify maxSize x st))"
  shows "last_access stringify (fst p) (ops @ [x]) = Some (timestamp (snd p))"
proof -
  obtain now op where x: "x = (now, op)" by (cases x)
  have old: "last_access stringify (fst p) (ops @ [x]) = Some (timestamp (snd p))"
    if "p \<in> set (cache st)" "\<not> touches stringify (fst p) op"
    using that inv[of p] x by (simp add: last_access_append)
  show ?thesis
  proof (cases op)
    case (Get k')
    show ?thesis
    proof (cases "Map_get (cache st) k'")
      case None
      with p x Get have m: "p \<in> set (cache st)" by (simp add: get_def)
      from None have "k' \<notin> fst ` set (cache st)" by (simp add: Map_get_None_iff)
      with m have "fst p \<noteq> k'" by auto
      with m Get show ?thesis by (intro old) simp_all
    next
      case (Some e)
      show ?thesis
      proof (cases "isExpired now e")
        case True
        with p x Get Some have "p \<in> set (Map_delete k' (cache st))" by (simp add: get_def)
        then have "p \<in> set (cache st)" "fst p \<noteq> k'" by (simp_all add: set_Map_delete)
        with Get show ?thesis by (intro old) simp_all
      next
        case False
        with p x Get Some have "p \<in> set (Map_set k' (e\<lparr>timestamp := now\<rparr>) (cache st))"
          by (simp add: get_def)
        with d have "p = (k', e\<lparr>timestamp := now\<rparr>) \<or> (p \<in> set (cache st) \<and> fst p \<noteq> k')"
          by (rule set_Map_set_distinct)
        then show ?thesis
        proof
          assume "p = (k', e\<lparr>timestamp := now\<rparr>)"
          with x Get show ?thesis by (simp add: last_access_append)
        next
          assume "p \<in> set (cache st) \<and> fst p \<noteq> k'"
          with Get show ?thesis by (intro old) auto
        qed
      qed
    qed
  next
    case (Set k' v t)
    show ?thesis
    proof (cases "stringify v")
      case None
      with p x Set have "p \<in> set (cache (cleanup now st))" by (simp add: set_c_def)
      with cleanup_subset have "p \<in> set (cache st)" by blast
      with Set None show ?thesis by (intro old) simp_all
    next
      case (Some s)
      let ?st2 = "evict_loop maxSize (int (length s)) (cleanup now st)"
      let ?e = "\<lparr>data = v, timestamp = now, ttl = t, key = k', size_e = int (length s)\<rparr>"
      have d1: "distinct (map fst (cache (cleanup now st)))" using d by (rule cleanup_distinct)
      then have d2: "distinct (map fst (cache ?st2))" by (rule evict_loop_distinct)
      from p x Set Some have "p \<in> set (Map_set k' ?e (cache ?st2))"
        by (simp add: set_c_def Let_def)
      with d2 have "p = (k', ?e) \<or> (p \<in> set (cache ?st2) \<and> fst p \<noteq> k')"
        by (rule set_Map_set_distinct)
      then show ?thesis
      proof
        assume "p = (k', ?e)"
        with x Set Some show ?thesis by (simp add: last_access_append)
      next
        assume a: "p \<in> set (cache ?st2) \<and> fst p \<noteq> k'"
        with evict_loop_subset[OF d1, of maxSize "int (length s)"] cleanup_subset[of now st]
        have "p \<in> set (cache st)" by blast
        with a Set show ?thesis by (intro old) auto
      qed
    qed
  next
    case (Del k')
    have "p \<in> set (cache st)"
      using p x Del by (auto simp: del_def set_Map_delete split: option.splits)
    with Del show ?thesis by (intro old) simp_all
  next
    case Clear
    with p x show ?thesis by (simp add: clear_def)
  next
    case Cleanup
    with p x have "p \<in> set (cache (cleanup now st))" by simp
    with cleanup_subset have "p \<in> set (cache st)" by blast
    with Cleanup show ?thesis by (intro old) simp_all
  qed
qed

lemma run_last_access:
  "p \<in> set (cache (run stringify maxSize ops createCache)) \<Longrightarrow>
   last_access stringify (fst p) ops = Some (timestamp (snd p))"
proof (induction ops arbitrary: p rule: rev_induct)
  case Nil
  then show ?case by (simp add: createCache_def)
next
  case (snoc x ops)
  have d: "distinct (map fst (cache (run stringify maxSize ops createCache)))"
    by (rule run_distinct) (simp add: createCache_def)
  from snoc.prems have "p \<in> set (cache (step stringify maxSize x (run stringify maxSize ops createCache)))"
    by (simp only: run_append)
  with d snoc.IH show ?case by (rule step_last_access)
qed

text \<open>The three inserts again, with a \<open>get\<close> of the first key before the third.\<close>

lemma refreshed_inserts:
  assumes k: "k1 \<noteq> k2" "k1 \<noteq> k3" "k2 \<noteq> k3"
    and s: "stringify v1 = Some s1" "stringify v2 = Some s2" "stringify v3 = Some s3"
    and l: "length s1 = 40" "length s2 = 40" "length s3 = 40"
    and t: "t2 \<le> t1 + ttl1" "tg \<le> t1 + ttl1" "t2 < tg" "t3 \<le> tg + ttl1" "t3 \<le> t2 + ttl2"
  shows "cache (run stringify 100
            [(t1, Set k1 v1 ttl1), (t2, Set k2 v2 ttl2), (tg, Get k1), (t3, Set k3 v3 ttl3)]
            createCache)
         = [(k1, \<lparr>data = v1, timestamp = tg, ttl = ttl1, key = k1, size_e = 40\<rparr>),
            (k3, \<lparr>data = v3, timestamp = t3, ttl = ttl3, key = k3, size_e = 40\<rparr>)]"
  using assms by (simp add: cache_eval)

lemma three_scenario:
  "k1 \<noteq> k2 \<and> k1 \<noteq> k3 \<and> k2 \<noteq> k3 \<and>
    stringify v1 = Some s1 \<and> stringify v2 = Some s2 \<and> stringify v3 = Some s3 \<and>
    length s1 = 40 \<and> length s2 = 40 \<and> length s3 = 40 \<and>
    t1 \<le> t2 \<and> t2 \<le> t1 + ttl1 \<and> t3 \<le> t1 + ttl1 \<and> t3 \<le> t2 + ttl2 \<longrightarrow>
      map fst (cache (run stringify 100
            [(t1, Set k1 v1 ttl1), (t2, Set k2 v2 ttl2)] createCache)) = [k1, k2] \<and>
      map fst (cache (run stringify 100
            [(t1, Set k1 v1 ttl1), (t2, Set k2 v2 ttl2), (t3, Set k3 v3 ttl3)] createCache)) = [k2, k3] \<and>
      fst (get t k1 (run stringify 100
            [(t1, Set k1 v1 ttl1), (t2, Set k2 v2 ttl2), (t3, Set k3 v3 ttl3)] createCache)) = None \<and>
      (t \<le> t2 + ttl2 \<longrightarrow> fst (get t k2 (run stringify 100
            [(t1, Set k1 v1 ttl1), (t2, Set k2 v2 ttl2), (t3, Set k3 v3 ttl3)] createCache)) = Some v2) \<and>
      (t \<le> t3 + ttl3 \<longrightarrow> fst (get t k3 (run stringify 100
            [(t1, Set k1 v1 ttl1), (t2, Set k2 v2 ttl2), (t3, Set k3 v3 ttl3)] createCache)) = Some v3)"
proof (intro conjI impI)
  assume a: "k1 \<noteq> k2 \<and> k1 \<noteq> k3 \<and> k2 \<noteq> k3 \<and>
    stringify v1 = Some s1 \<and> stringify v2 = Some s2 \<and> stringify v3 = Some s3 \<and>
    length s1 = 40 \<and> length s2 = 40 \<and> length s3 = 40 \<and>
    t1 \<le> t2 \<and> t2 \<le> t1 + ttl1 \<and> t3 \<le> t1 + ttl1 \<and> t3 \<le> t2 + ttl2"
  then have k: "k1 \<noteq> k2" "k1 \<noteq> k3" "k2 \<noteq> k3"
    and s: "stringify v1 = Some s1" "stringify v2 = Some s2" "stringify v3 = Some s3"
    and l: "length s1 = 40" "length s2 = 40" "length s3 = 40"
    and tt: "t1 \<le> t2" "t2 \<le> t1 + ttl1" "t3 \<le> t1 + ttl1" "t3 \<le> t2 + ttl2"
    by simp_all
  have c2: "cache (run stringify 100
            [(t1, Set k1 v1 ttl1), (t2, Set k2 v2 ttl2)] createCache)
         = [(k1, \<lparr>data = v1, timestamp = t1, ttl = ttl1, key = k1, size_e = 40\<rparr>),
            (k2, \<lparr>data = v2, timestamp = t2, ttl = ttl2, key = k2, size_e = 40\<rparr>)]"
    by (rule two_inserts[where ?s1.0 = s1 and ?s2.0 = s2]; (rule k s l tt))
  have c3: "cache (run stringify 100
            [(t1, Set k1 v1 ttl1), (t2, Set k2 v2 ttl2), (t3, Set k3 v3 ttl3)] createCache)
         = [(k2, \<lparr>data = v2, timestamp = t2, ttl = ttl2, key = k2, size_e = 40\<rparr>),
            (k3, \<lparr>data = v3, timestamp = t3, ttl = ttl3, key = k3, size_e = 40\<rparr>)]"
    by (rule three_inserts[where ?s1.0 = s1 and ?s2.0 = s2 and ?s3.0 = s3]; (rule k s l tt))
  show "map fst (cache (run stringify 100
            [(t1, Set k1 v1 ttl1), (t2, Set k2 v2 ttl2)] createCache)) = [k1, k2]" by (simp only: c2) simp
  show "map fst (cache (run stringify 100
            [(t1, Set k1 v1 ttl1), (t2, Set k2 v2 ttl2), (t3, Set k3 v3 ttl3)] createCache)) = [k2, k3]" by (simp only: c3) simp
  show "fst (get t k1 (run stringify 100
            [(t1, Set k1 v1 ttl1), (t2, Set k2 v2 ttl2), (t3, Set k3 v3 ttl3)] createCache)) = None"
    using c3 k by (simp add: get_def)
  {
    assume "t \<le> t2 + ttl2"
    then show "fst (get t k2 (run stringify 100
            [(t1, Set k1 v1 ttl1), (t2, Set k2 v2 ttl2), (t3, Set k3 v3 ttl3)] createCache)) = Some v2"
      using c3 k by (simp add: get_def isExpired_def)
  }
  {
    assume "t \<le> t3 + ttl3"
    then show "fst (get t k3 (run stringify 100
            [(t1, Set k1 v1 ttl1), (t2, Set k2 v2 ttl2), (t3, Set k3 v3 ttl3)] createCache)) = Some v3"
      using c3 k by (simp add: get_def isExpired_def)
  }
qed

lemma refreshed_scenario:
  "k1 \<noteq> k2 \<and> k1 \<noteq> k3 \<and> k2 \<noteq> k3 \<and>
    stringify v1 = Some s1 \<and> stringify v2 = Some s2 \<and> stringify v3 = Some s3 \<and>
    length s1 = 40 \<and> length s2 = 40 \<and> length s3 = 40 \<and>
    t2 \<le> t1 + ttl1 \<and> tg \<le> t1 + ttl1 \<and> t2 < tg \<and> t3 \<le> tg + ttl1 \<and> t3 \<le> t2 + ttl2 \<longrightarrow>
      map fst (cache (run stringify 100
            [(t1, Set k1 v1 ttl1), (t2, Set k2 v2 ttl2), (tg, Get k1), (t3, Set k3 v3 ttl3)]
            createCache)) = [k1, k3] \<and>
      fst (get t k2 (run stringify 100
            [(t1, Set k1 v1 ttl1), (t2, Set k2 v2 ttl2), (tg, Get k1), (t3, Set k3 v3 ttl3)]
            createCache)) = None \<and>
      (t \<le> tg + ttl1 \<longrightarrow> fst (get t k1 (run stringify 100
            [(t1, Set k1 v1 ttl1), (t2, Set k2 v2 ttl2), (tg, Get k1), (t3, Set k3 v3 ttl3)]
            createCache)) = Some v1) \<and>
      (t \<le> t3 + ttl3 \<longrightarrow> fst (get t k3 (run stringify 100
            [(t1, Set k1 v1 ttl1), (t2, Set k2 v2 ttl2), (tg, Get k1), (t3, Set k3 v3 ttl3)]
            createCache)) = Some v3)"
proof (intro conjI impI)
  assume a: "k1 \<noteq> k2 \<and> k1 \<noteq> k3 \<and> k2 \<noteq> k3 \<and>
    stringify v1 = Some s1 \<and> stringify v2 = Some s2 \<and> stringify v3 = Some s3 \<and>
    length s1 = 40 \<and> length s2 = 40 \<and> length s3 = 40 \<and>
    t2 \<le> t1 + ttl1 \<and> tg \<le> t1 + ttl1 \<and> t2 < tg \<and> t3 \<le> tg + ttl1 \<and> t3 \<le> t2 + ttl2"
  then have k: "k1 \<noteq> k2" "k1 \<noteq> k3" "k2 \<noteq> k3"
    and s: "stringify v1 = Some s1" "stringify v2 = Some s2" "stringify v3 = Some s3"
    and l: "length s1 = 40" "length s2 = 40" "length s3 = 40"
    and tt: "t2 \<le> t1 + ttl1" "tg \<le> t1 + ttl1" "t2 < tg" "t3 \<le> tg + ttl1" "t3 \<le> t2 + ttl2"
    by simp_all
  have c: "cache (run stringify 100
            [(t1, Set k1 v1 ttl1), (t2, Set k2 v2 ttl2), (tg, Get k1), (t3, Set k3 v3 ttl3)]
            createCache)
         = [(k1, \<lparr>data = v1, timestamp = tg, ttl = ttl1, key = k1, size_e = 40\<rparr>),
            (k3, \<lparr>data = v3, timestamp = t3, ttl = ttl3, key = k3, size_e = 40\<rparr>)]"
    by (rule refreshed_inserts[where ?s1.0 = s1 and ?s2.0 = s2 and ?s3.0 = s3]; (rule k s l tt))
  show "map fst (cache (run stringify 100
            [(t1, Set k1 v1 ttl1), (t2, Set k2 v2 ttl2), (tg, Get k1), (t3, Set k3 v3 ttl3)]
            createCache)) = [k1, k3]" by (simp only: c) simp
  show "fst (get t k2 (run stringify 100
            [(t1, Set k1 v1 ttl1), (t2, Set k2 v2 ttl2), (tg, Get k1), (t3, Set k3 v3 ttl3)]
            createCache)) = None"
    using c k by (simp add: get_def)
  {
    assume "t \<le> tg + ttl1"
    then show "fst (get t k1 (run stringify 100
            [(t1, Set k1 v1 ttl1), (t2, Set k2 v2 ttl2), (tg, Get k1), (t3, Set k3 v3 ttl3)]
            createCache)) = Some v1"
      using c k by (simp add: get_def isExpired_def)
  }
  {
    assume "t \<le> t3 + ttl3"
    then show "fst (get t k3 (run stringify 100
            [(t1, Set k1 v1 ttl1), (t2, Set k2 v2 ttl2), (tg, Get k1), (t3, Set k3 v3 ttl3)]
            createCache)) = Some v3"
      using c k by (simp add: get_def isExpired_def)
  }
qed

lemma evict_loop_oldest_first:
  "distinct (map fst (cache st)) \<longrightarrow>
      set (cache (evict_loop maxSize sz st)) \<subseteq> set (cache st) \<and>
      (\<forall>p \<in> set (cache st) - set (cache (evict_loop maxSize sz st)).
         \<forall>q \<in> set (cache (evict_loop maxSize sz st)). timestamp (snd p) \<le> timestamp (snd q))"
proof
  assume d: "distinct (map fst (cache st))"
  note ord = evict_loop_order[OF d, of maxSize sz]
  from ord[THEN conjunct1] ord[THEN conjunct2, THEN conjunct1]
  show "set (cache (evict_loop maxSize sz st)) \<subseteq> set (cache st) \<and>
      (\<forall>p \<in> set (cache st) - set (cache (evict_loop maxSize sz st)).
         \<forall>q \<in> set (cache (evict_loop maxSize sz st)). timestamp (snd p) \<le> timestamp (snd q))"
    by (rule conjI)
qed

text \<open>
  Claim C6, as the code has it. The claim fails in two ways. The loop ends when the map
  is empty, so a value larger than \<open>maxSize\<close> evicts every entry and is stored although it
  does not fit: with \<open>maxSize = 10\<close>, a 12-byte value evicts a 5-byte entry and the live
  size is 12. And \<open>set\<close> does not take the entry that it overwrites into account, so it
  evicts where the new entry fits: with \<open>maxSize = 100\<close>, after a 40-byte value has been
  set twice under \<open>a\<close> the counter holds 80 for 40 live bytes, and the \<open>set\<close> of a 40-byte
  value under \<open>b\<close> evicts \<open>a\<close>; and with 40 bytes under \<open>b\<close> and then 40 bytes under \<open>a\<close>,
  the \<open>set\<close> of another 40-byte value under \<open>a\<close> evicts \<open>b\<close>, where replacing the entry of
  \<open>a\<close> needs no room.
\<close>

theorem C6_lru_eviction_order_counterexample:
  "map fst (cache (run JSON_stringify 10
      [(0, Set (js ''a'') (JStr (js ''abc'')) 1000),
       (1, Set (js ''b'') (JStr (js ''0123456789'')) 1000)] createCache)) = [js ''b''] \<and>
   \<not> live_size (run JSON_stringify 10
      [(0, Set (js ''a'') (JStr (js ''abc'')) 1000),
       (1, Set (js ''b'') (JStr (js ''0123456789'')) 1000)] createCache) \<le> 10 \<and>
   live_size (run JSON_stringify 100
      [(0, Set (js ''a'') (JStr (js ''aaaaaaaaaaaaaaaaaaaaaaaaaaaaaaaaaaaaaa'')) 1000),
       (1, Set (js ''a'') (JStr (js ''aaaaaaaaaaaaaaaaaaaaaaaaaaaaaaaaaaaaaa'')) 1000)] createCache) + 40
     \<le> 100 \<and>
   map fst (cache (run JSON_stringify 100
      [(0, Set (js ''a'') (JStr (js ''aaaaaaaaaaaaaaaaaaaaaaaaaaaaaaaaaaaaaa'')) 1000),
       (1, Set (js ''a'') (JStr (js ''aaaaaaaaaaaaaaaaaaaaaaaaaaaaaaaaaaaaaa'')) 1000),
       (2, Set (js ''b'') (JStr (js ''bbbbbbbbbbbbbbbbbbbbbbbbbbbbbbbbbbbbbb'')) 1000)] createCache))
     = [js ''b''] \<and>
   live_size (run JSON_stringify 100
      [(0, Set (js ''b'') (JStr (js ''bbbbbbbbbbbbbbbbbbbbbbbbbbbbbbbbbbbbbb'')) 1000),
       (1, Set (js ''a'') (JStr (js ''aaaaaaaaaaaaaaaaaaaaaaaaaaaaaaaaaaaaaa'')) 1000)] createCache)
     = 80 \<and>
   map fst (cache (run JSON_stringify 100
      [(0, Set (js ''b'') (JStr (js ''bbbbbbbbbbbbbbbbbbbbbbbbbbbbbbbbbbbbbb'')) 1000),
       (1, Set (js ''a'') (JStr (js ''aaaaaaaaaaaaaaaaaaaaaaaaaaaaaaaaaaaaaa'')) 1000),
       (2, Set (js ''a'') (JStr (js ''cccccccccccccccccccccccccccccccccccccc'')) 1000)] createCache))
     = [js ''a'']"
  by (simp add: cache_eval)

text \<open>
  Claim C6, amended.

    \<^item> One round of eviction, in a map that is not empty and has distinct keys, removes
      exactly one entry, which has the least timestamp and is the first in the order of
      the map among the entries of that timestamp, and subtracts its size.

    \<^item> In a state whose keys are distinct and whose counter is the sum of the sizes of the
      entries in the map, \<open>set\<close> of a value that has a JSON text, under a key that is not in
      the map after the sweep of the expired entries, runs some number \<open>n\<close> of rounds after
      the sweep and appends the new entry. Before each of these rounds the sizes of the
      entries in the map and of the new entry together exceed \<open>maxSize\<close> and the map is not
      empty; after the last of them the new entry fits or the map is empty. So \<open>set\<close>
      evicts nothing when the new entry fits, and stops as soon as it does.

    \<^item> Whatever the counter, the eviction loop only removes entries, and every entry it
      removes is at least as old, by timestamp, as every entry it keeps.

    \<^item> After any sequence of operations from the empty cache, the timestamp of every entry
      in the map is the last access of its key.

    \<^item> With \<open>maxSize = 100\<close>, three values of 40 bytes stored under distinct keys at
      \<open>t1 \<le> t2\<close> and \<open>t3\<close>, none of them expired by \<open>t3\<close>: the map holds the first two keys
      after the second \<open>set\<close> and the last two after the third, \<open>get\<close> of the first key is
      absent, and \<open>get\<close> of the second and of the third returns its value while it has not
      expired.

    \<^item> The same with a \<open>get\<close> of the first key at \<open>tg\<close> before the third \<open>set\<close>, \<open>t2 < tg\<close>:
      the third \<open>set\<close> evicts the second key, \<open>get\<close> of the second key is absent, and \<open>get\<close>
      of the first and of the third returns its value while it has not expired.
\<close>

theorem C6_lru_eviction_order_amended:
  "(distinct (map fst (cache st)) \<and> cache st \<noteq> [] \<longrightarrow>
      (\<exists>p \<in> set (cache st).
         (\<forall>q \<in> set (cache st). timestamp (snd p) \<le> timestamp (snd q)) \<and>
         hd (filter (\<lambda>q. timestamp (snd q) = timestamp (snd p)) (cache st)) = p \<and>
         cache (evictLRU st) = filter (\<lambda>q. q \<noteq> p) (cache st) \<and>
         currentSize (evictLRU st) = currentSize st - size_e (snd p))) \<and>
   (stringify v = Some s \<and> distinct (map fst (cache st)) \<and>
    currentSize st = sizes (cache st) \<and> Map_get (cache (cleanup now st)) k = None \<longrightarrow>
      (\<exists>n. cache (snd (set_c stringify maxSize now k v ttl0 st))
              = cache ((evictLRU ^^ n) (cleanup now st))
                @ [(k, \<lparr>data = v, timestamp = now, ttl = ttl0, key = k, size_e = int (length s)\<rparr>)] \<and>
            (\<forall>m<n. sizes (cache ((evictLRU ^^ m) (cleanup now st))) + int (length s) > maxSize \<and>
                   cache ((evictLRU ^^ m) (cleanup now st)) \<noteq> []) \<and>
            (sizes (cache ((evictLRU ^^ n) (cleanup now st))) + int (length s) \<le> maxSize \<or>
             cache ((evictLRU ^^ n) (cleanup now st)) = []))) \<and>
   (distinct (map fst (cache st)) \<longrightarrow>
      set (cache (evict_loop maxSize sz st)) \<subseteq> set (cache st) \<and>
      (\<forall>p \<in> set (cache st) - set (cache (evict_loop maxSize sz st)).
         \<forall>q \<in> set (cache (evict_loop maxSize sz st)). timestamp (snd p) \<le> timestamp (snd q))) \<and>
   (\<forall>p \<in> set (cache (run stringify maxSize ops createCache)).
      last_access stringify (fst p) ops = Some (timestamp (snd p))) \<and>
   (k1 \<noteq> k2 \<and> k1 \<noteq> k3 \<and> k2 \<noteq> k3 \<and>
    stringify v1 = Some s1 \<and> stringify v2 = Some s2 \<and> stringify v3 = Some s3 \<and>
    length s1 = 40 \<and> length s2 = 40 \<and> length s3 = 40 \<and>
    t1 \<le> t2 \<and> t2 \<le> t1 + ttl1 \<and> t3 \<le> t1 + ttl1 \<and> t3 \<le> t2 + ttl2 \<longrightarrow>
      map fst (cache (run stringify 100
            [(t1, Set k1 v1 ttl1), (t2, Set k2 v2 ttl2)] createCache)) = [k1, k2] \<and>
      map fst (cache (run stringify 100
            [(t1, Set k1 v1 ttl1), (t2, Set k2 v2 ttl2), (t3, Set k3 v3 ttl3)] createCache)) = [k2, k3] \<and>
      fst (get t k1 (run stringify 100
            [(t1, Set k1 v1 ttl1), (t2, Set k2 v2 ttl2), (t3, Set k3 v3 ttl3)] createCache)) = None \<and>
      (t \<le> t2 + ttl2 \<longrightarrow> fst (get t k2 (run stringify 100
            [(t1, Set k1 v1 ttl1), (t2, Set k2 v2 ttl2), (t3, Set k3 v3 ttl3)] createCache)) = Some v2) \<and>
      (t \<le> t3 + ttl3 \<longrightarrow> fst (get t k3 (run stringify 100
            [(t1, Set k1 v1 ttl1), (t2, Set k2 v2 ttl2), (t3, Set k3 v3 ttl3)] createCache)) = Some v3)) \<and>
   (k1 \<noteq> k2 \<and> k1 \<noteq> k3 \<and> k2 \<noteq> k3 \<and>
    stringify v1 = Some s1 \<and> stringify v2 = Some s2 \<and> stringify v3 = Some s3 \<and>
    length s1 = 40 \<and> length s2 = 40 \<and> length s3 = 40 \<and>
    t2 \<le> t1 + ttl1 \<and> tg \<le> t1 + ttl1 \<and> t2 < tg \<and> t3 \<le> tg + ttl1 \<and> t3 \<le> t2 + ttl2 \<longrightarrow>
      map fst (cache (run stringify 100
            [(t1, Set k1 v1 ttl1), (t2, Set k2 v2 ttl2), (tg, Get k1), (t3, Set k3 v3 ttl3)]
            createCache)) = [k1, k3] \<and>
      fst (get t k2 (run stringify 100
            [(t1, Set k1 v1 ttl1), (t2, Set k2 v2 ttl2), (tg, Get k1), (t3, Set k3 v3 ttl3)]
            createCache)) = None \<and>
      (t \<le> tg + ttl1 \<longrightarrow> fst (get t k1 (run stringify 100
            [(t1, Set k1 v1 ttl1), (t2, Set k2 v2 ttl2), (tg, Get k1), (t3, Set k3 v3 ttl3)]
            createCache)) = Some v1) \<and>
      (t \<le> t3 + ttl3 \<longrightarrow> fst (get t k3 (run stringify 100
            [(t1, Set k1 v1 ttl1), (t2, Set k2 v2 ttl2), (tg, Get k1), (t3, Set k3 v3 ttl3)]
            createCache)) = Some v3))"
proof -
  have A: "distinct (map fst (cache st)) \<and> cache st \<noteq> [] \<longrightarrow>
      (\<exists>p \<in> set (cache st).
         (\<forall>q \<in> set (cache st). timestamp (snd p) \<le> timestamp (snd q)) \<and>
         hd (filter (\<lambda>q. timestamp (snd q) = timestamp (snd p)) (cache st)) = p \<and>
         cache (evictLRU st) = filter (\<lambda>q. q \<noteq> p) (cache st) \<and>
         currentSize (evictLRU st) = currentSize st - size_e (snd p))"
    using evictLRU_round[of st] by blast
  have B: "stringify v = Some s \<and> distinct (map fst (cache st)) \<and>
    currentSize st = sizes (cache st) \<and> Map_get (cache (cleanup now st)) k = None \<longrightarrow>
      (\<exists>n. cache (snd (set_c stringify maxSize now k v ttl0 st))
              = cache ((evictLRU ^^ n) (cleanup now st))
                @ [(k, \<lparr>data = v, timestamp = now, ttl = ttl0, key = k, size_e = int (length s)\<rparr>)] \<and>
            (\<forall>m<n. sizes (cache ((evictLRU ^^ m) (cleanup now st))) + int (length s) > maxSize \<and>
                   cache ((evictLRU ^^ m) (cleanup now st)) \<noteq> []) \<and>
            (sizes (cache ((evictLRU ^^ n) (cleanup now st))) + int (length s) \<le> maxSize \<or>
             cache ((evictLRU ^^ n) (cleanup now st)) = []))"
  proof
    assume a: "stringify v = Some s \<and> distinct (map fst (cache st)) \<and>
      currentSize st = sizes (cache st) \<and> Map_get (cache (cleanup now st)) k = None"
    then have 1: "stringify v = Some s" and 2: "distinct (map fst (cache st))"
      and 3: "currentSize st = sizes (cache st)" and 4: "Map_get (cache (cleanup now st)) k = None"
      by simp_all
    from 1 2 3 4 show "\<exists>n. cache (snd (set_c stringify maxSize now k v ttl0 st))
              = cache ((evictLRU ^^ n) (cleanup now st))
                @ [(k, \<lparr>data = v, timestamp = now, ttl = ttl0, key = k, size_e = int (length s)\<rparr>)] \<and>
            (\<forall>m<n. sizes (cache ((evictLRU ^^ m) (cleanup now st))) + int (length s) > maxSize \<and>
                   cache ((evictLRU ^^ m) (cleanup now st)) \<noteq> []) \<and>
            (sizes (cache ((evictLRU ^^ n) (cleanup now st))) + int (length s) \<le> maxSize \<or>
             cache ((evictLRU ^^ n) (cleanup now st)) = [])"
      by (rule set_c_rounds)
  qed
  have D: "\<forall>p \<in> set (cache (run stringify maxSize ops createCache)).
      last_access stringify (fst p) ops = Some (timestamp (snd p))"
    by (intro ballI run_last_access)
  show ?thesis
    by (intro conjI) (rule A B evict_loop_oldest_first D three_scenario refreshed_scenario)+
qed

theorem C6_lru_eviction_order_amended_witness:
  "distinct (map fst (cache (run JSON_stringify 100
      [(0, Set (js ''k1'') (JStr (js ''aaaaaaaaaaaaaaaaaaaaaaaaaaaaaaaaaaaaaa'')) 1000),
       (1, Set (js ''k2'') (JStr (js ''bbbbbbbbbbbbbbbbbbbbbbbbbbbbbbbbbbbbbb'')) 1000)] createCache))) \<and>
   currentSize (run JSON_stringify 100
      [(0, Set (js ''k1'') (JStr (js ''aaaaaaaaaaaaaaaaaaaaaaaaaaaaaaaaaaaaaa'')) 1000),
       (1, Set (js ''k2'') (JStr (js ''bbbbbbbbbbbbbbbbbbbbbbbbbbbbbbbbbbbbbb'')) 1000)] createCache)
     = sizes (cache (run JSON_stringify 100
      [(0, Set (js ''k1'') (JStr (js ''aaaaaaaaaaaaaaaaaaaaaaaaaaaaaaaaaaaaaa'')) 1000),
       (1, Set (js ''k2'') (JStr (js ''bbbbbbbbbbbbbbbbbbbbbbbbbbbbbbbbbbbbbb'')) 1000)] createCache)) \<and>
   Map_get (cache (cleanup 2 (run JSON_stringify 100
      [(0, Set (js ''k1'') (JStr (js ''aaaaaaaaaaaaaaaaaaaaaaaaaaaaaaaaaaaaaa'')) 1000),
       (1, Set (js ''k2'') (JStr (js ''bbbbbbbbbbbbbbbbbbbbbbbbbbbbbbbbbbbbbb'')) 1000)] createCache)))
     (js ''k3'') = None \<and>
   map fst (cache (evictLRU (run JSON_stringify 100
      [(0, Set (js ''k1'') (JStr (js ''aaaaaaaaaaaaaaaaaaaaaaaaaaaaaaaaaaaaaa'')) 1000),
       (1, Set (js ''k2'') (JStr (js ''bbbbbbbbbbbbbbbbbbbbbbbbbbbbbbbbbbbbbb'')) 1000)] createCache)))
     = [js ''k2''] \<and>
   map fst (cache (snd (set_c JSON_stringify 100 2 (js ''k3'')
      (JStr (js ''cccccccccccccccccccccccccccccccccccccc'')) 1000
      (run JSON_stringify 100
        [(0, Set (js ''k1'') (JStr (js ''aaaaaaaaaaaaaaaaaaaaaaaaaaaaaaaaaaaaaa'')) 1000),
         (1, Set (js ''k2'') (JStr (js ''bbbbbbbbbbbbbbbbbbbbbbbbbbbbbbbbbbbbbb'')) 1000)] createCache))))
     = map fst (cache ((evictLRU ^^ Suc 0) (cleanup 2 (run JSON_stringify 100
        [(0, Set (js ''k1'') (JStr (js ''aaaaaaaaaaaaaaaaaaaaaaaaaaaaaaaaaaaaaa'')) 1000),
         (1, Set (js ''k2'') (JStr (js ''bbbbbbbbbbbbbbbbbbbbbbbbbbbbbbbbbbbbbb'')) 1000)] createCache))))
       @ [js ''k3''] \<and>
   sizes (cache (cleanup 2 (run JSON_stringify 100
        [(0, Set (js ''k1'') (JStr (js ''aaaaaaaaaaaaaaaaaaaaaaaaaaaaaaaaaaaaaa'')) 1000),
         (1, Set (js ''k2'') (JStr (js ''bbbbbbbbbbbbbbbbbbbbbbbbbbbbbbbbbbbbbb'')) 1000)] createCache)))
     + 40 > 100 \<and>
   sizes (cache ((evictLRU ^^ Suc 0) (cleanup 2 (run JSON_stringify 100
        [(0, Set (js ''k1'') (JStr (js ''aaaaaaaaaaaaaaaaaaaaaaaaaaaaaaaaaaaaaa'')) 1000),
         (1, Set (js ''k2'') (JStr (js ''bbbbbbbbbbbbbbbbbbbbbbbbbbbbbbbbbbbbbb'')) 1000)] createCache))))
     + 40 \<le> 100 \<and>
   map (\<lambda>p. timestamp (snd p)) (cache (run JSON_stringify 100
      [(0, Set (js ''k1'') (JStr (js ''aaaaaaaaaaaaaaaaaaaaaaaaaaaaaaaaaaaaaa'')) 1000),
       (1, Set (js ''k2'') (JStr (js ''bbbbbbbbbbbbbbbbbbbbbbbbbbbbbbbbbbbbbb'')) 1000),
       (2, Get (js ''k1'')),
       (3, Set (js ''k3'') (JStr (js ''cccccccccccccccccccccccccccccccccccccc'')) 1000)] createCache))
     = [2, 3] \<and>
   last_access JSON_stringify (js ''k1'')
      [(0, Set (js ''k1'') (JStr (js ''aaaaaaaaaaaaaaaaaaaaaaaaaaaaaaaaaaaaaa'')) 1000),
       (1, Set (js ''k2'') (JStr (js ''bbbbbbbbbbbbbbbbbbbbbbbbbbbbbbbbbbbbbb'')) 1000),
       (2, Get (js ''k1'')),
       (3, Set (js ''k3'') (JStr (js ''cccccccccccccccccccccccccccccccccccccc'')) 1000)] = Some 2 \<and>
   map fst (cache (run JSON_stringify 100
      [(0, Set (js ''k1'') (JStr (js ''aaaaaaaaaaaaaaaaaaaaaaaaaaaaaaaaaaaaaa'')) 1000),
       (1, Set (js ''k2'') (JStr (js ''bbbbbbbbbbbbbbbbbbbbbbbbbbbbbbbbbbbbbb'')) 1000),
       (3, Set (js ''k3'') (JStr (js ''cccccccccccccccccccccccccccccccccccccc'')) 1000)] createCache))
     = [js ''k2'', js ''k3''] \<and>
   fst (get 4 (js ''k1'') (run JSON_stringify 100
      [(0, Set (js ''k1'') (JStr (js ''aaaaaaaaaaaaaaaaaaaaaaaaaaaaaaaaaaaaaa'')) 1000),
       (1, Set (js ''k2'') (JStr (js ''bbbbbbbbbbbbbbbbbbbbbbbbbbbbbbbbbbbbbb'')) 1000),
       (3, Set (js ''k3'') (JStr (js ''cccccccccccccccccccccccccccccccccccccc'')) 1000)] createCache))
     = None \<and>
   fst (get 4 (js ''k2'') (run JSON_stringify 100
      [(0, Set (js ''k1'') (JStr (js ''aaaaaaaaaaaaaaaaaaaaaaaaaaaaaaaaaaaaaa'')) 1000),
       (1, Set (js ''k2'') (JStr (js ''bbbbbbbbbbbbbbbbbbbbbbbbbbbbbbbbbbbbbb'')) 1000),
       (3, Set (js ''k3'') (JStr (js ''cccccccccccccccccccccccccccccccccccccc'')) 1000)] createCache))
     = Some (JStr (js ''bbbbbbbbbbbbbbbbbbbbbbbbbbbbbbbbbbbbbb'')) \<and>
   map fst (cache (run JSON_stringify 100
      [(0, Set (js ''k1'') (JStr (js ''aaaaaaaaaaaaaaaaaaaaaaaaaaaaaaaaaaaaaa'')) 1000),
       (1, Set (js ''k2'') (JStr (js ''bbbbbbbbbbbbbbbbbbbbbbbbbbbbbbbbbbbbbb'')) 1000),
       (2, Get (js ''k1'')),
       (3, Set (js ''k3'') (JStr (js ''cccccccccccccccccccccccccccccccccccccc'')) 1000)] createCache))
     = [js ''k1'', js ''k3''] \<and>
   fst (get 4 (js ''k2'') (run JSON_stringify 100
      [(0, Set (js ''k1'') (JStr (js ''aaaaaaaaaaaaaaaaaaaaaaaaaaaaaaaaaaaaaa'')) 1000),
       (1, Set (js ''k2'') (JStr (js ''bbbbbbbbbbbbbbbbbbbbbbbbbbbbbbbbbbbbbb'')) 1000),
       (2, Get (js ''k1'')),
       (3, Set (js ''k3'') (JStr (js ''cccccccccccccccccccccccccccccccccccccc'')) 1000)] createCache))
     = None \<and>
   fst (get 4 (js ''k1'') (run JSON_stringify 100
      [(0, Set (js ''k1'') (JStr (js ''aaaaaaaaaaaaaaaaaaaaaaaaaaaaaaaaaaaaaa'')) 1000),
       (1, Set (js ''k2'') (JStr (js ''bbbbbbbbbbbbbbbbbbbbbbbbbbbbbbbbbbbbbb'')) 1000),
       (2, Get (js ''k1'')),
       (3, Set (js ''k3'') (JStr (js ''cccccccccccccccccccccccccccccccccccccc'')) 1000)] createCache))
     = Some (JStr (js ''aaaaaaaaaaaaaaaaaaaaaaaaaaaaaaaaaaaaaa''))"
proof -
  note T = C6_lru_eviction_order_amended[where
      st = "run JSON_stringify 100
        [(0, Set (js ''k1'') (JStr (js ''aaaaaaaaaaaaaaaaaaaaaaaaaaaaaaaaaaaaaa'')) 1000),
         (1, Set (js ''k2'') (JStr (js ''bbbbbbbbbbbbbbbbbbbbbbbbbbbbbbbbbbbbbb'')) 1000)] createCache"
      and maxSize = 100 and sz = 40 and stringify = JSON_stringify
      and v = "JStr (js ''cccccccccccccccccccccccccccccccccccccc'')"
      and s = "QuoteJSONString (js ''cccccccccccccccccccccccccccccccccccccc'')"
      and now = 2 and k = "js ''k3''" and ?ttl0.0 = 1000
      and ops = "[(0, Set (js ''k1'') (JStr (js ''aaaaaaaaaaaaaaaaaaaaaaaaaaaaaaaaaaaaaa'')) 1000),
       (1, Set (js ''k2'') (JStr (js ''bbbbbbbbbbbbbbbbbbbbbbbbbbbbbbbbbbbbbb'')) 1000),
       (2, Get (js ''k1'')),
       (3, Set (js ''k3'') (JStr (js ''cccccccccccccccccccccccccccccccccccccc'')) 1000)]"
      and ?k1.0 = "js ''k1''" and ?k2.0 = "js ''k2''" and ?k3.0 = "js ''k3''"
      and ?v1.0 = "JStr (js ''aaaaaaaaaaaaaaaaaaaaaaaaaaaaaaaaaaaaaa'')"
      and ?v2.0 = "JStr (js ''bbbbbbbbbbbbbbbbbbbbbbbbbbbbbbbbbbbbbb'')"
      and ?v3.0 = "JStr (js ''cccccccccccccccccccccccccccccccccccccc'')"
      and ?s1.0 = "QuoteJSONString (js ''aaaaaaaaaaaaaaaaaaaaaaaaaaaaaaaaaaaaaa'')"
      and ?s2.0 = "QuoteJSONString (js ''bbbbbbbbbbbbbbbbbbbbbbbbbbbbbbbbbbbbbb'')"
      and ?s3.0 = "QuoteJSONString (js ''cccccccccccccccccccccccccccccccccccccc'')"
      and ?t1.0 = 0 and ?t2.0 = 1 and tg = 2 and ?t3.0 = 3 and ?ttl1.0 = 1000 and ?ttl2.0 = 1000
      and ?ttl3.0 = 1000 and t = 4]
  have 1: "distinct (map fst (cache (run JSON_stringify 100
      [(0, Set (js ''k1'') (JStr (js ''aaaaaaaaaaaaaaaaaaaaaaaaaaaaaaaaaaaaaa'')) 1000),
       (1, Set (js ''k2'') (JStr (js ''bbbbbbbbbbbbbbbbbbbbbbbbbbbbbbbbbbbbbb'')) 1000)] createCache))) \<and>
   currentSize (run JSON_stringify 100
      [(0, Set (js ''k1'') (JStr (js ''aaaaaaaaaaaaaaaaaaaaaaaaaaaaaaaaaaaaaa'')) 1000),
       (1, Set (js ''k2'') (JStr (js ''bbbbbbbbbbbbbbbbbbbbbbbbbbbbbbbbbbbbbb'')) 1000)] createCache)
     = sizes (cache (run JSON_stringify 100
      [(0, Set (js ''k1'') (JStr (js ''aaaaaaaaaaaaaaaaaaaaaaaaaaaaaaaaaaaaaa'')) 1000),
       (1, Set (js ''k2'') (JStr (js ''bbbbbbbbbbbbbbbbbbbbbbbbbbbbbbbbbbbbbb'')) 1000)] createCache)) \<and>
   Map_get (cache (cleanup 2 (run JSON_stringify 100
      [(0, Set (js ''k1'') (JStr (js ''aaaaaaaaaaaaaaaaaaaaaaaaaaaaaaaaaaaaaa'')) 1000),
       (1, Set (js ''k2'') (JStr (js ''bbbbbbbbbbbbbbbbbbbbbbbbbbbbbbbbbbbbbb'')) 1000)] createCache)))
     (js ''k3'') = None \<and>
   map fst (cache (evictLRU (run JSON_stringify 100
      [(0, Set (js ''k1'') (JStr (js ''aaaaaaaaaaaaaaaaaaaaaaaaaaaaaaaaaaaaaa'')) 1000),
       (1, Set (js ''k2'') (JStr (js ''bbbbbbbbbbbbbbbbbbbbbbbbbbbbbbbbbbbbbb'')) 1000)] createCache)))
     = [js ''k2''] \<and>
   map fst (cache (snd (set_c JSON_stringify 100 2 (js ''k3'')
      (JStr (js ''cccccccccccccccccccccccccccccccccccccc'')) 1000
      (run JSON_stringify 100
        [(0, Set (js ''k1'') (JStr (js ''aaaaaaaaaaaaaaaaaaaaaaaaaaaaaaaaaaaaaa'')) 1000),
         (1, Set (js ''k2'') (JStr (js ''bbbbbbbbbbbbbbbbbbbbbbbbbbbbbbbbbbbbbb'')) 1000)] createCache))))
     = map fst (cache ((evictLRU ^^ Suc 0) (cleanup 2 (run JSON_stringify 100
        [(0, Set (js ''k1'') (JStr (js ''aaaaaaaaaaaaaaaaaaaaaaaaaaaaaaaaaaaaaa'')) 1000),
         (1, Set (js ''k2'') (JStr (js ''bbbbbbbbbbbbbbbbbbbbbbbbbbbbbbbbbbbbbb'')) 1000)] createCache))))
       @ [js ''k3''] \<and>
   sizes (cache (cleanup 2 (run JSON_stringify 100
        [(0, Set (js ''k1'') (JStr (js ''aaaaaaaaaaaaaaaaaaaaaaaaaaaaaaaaaaaaaa'')) 1000),
         (1, Set (js ''k2'') (JStr (js ''bbbbbbbbbbbbbbbbbbbbbbbbbbbbbbbbbbbbbb'')) 1000)] createCache)))
     + 40 > 100 \<and>
   sizes (cache ((evictLRU ^^ Suc 0) (cleanup 2 (run JSON_stringify 100
        [(0, Set (js ''k1'') (JStr (js ''aaaaaaaaaaaaaaaaaaaaaaaaaaaaaaaaaaaaaa'')) 1000),
         (1, Set (js ''k2'') (JStr (js ''bbbbbbbbbbbbbbbbbbbbbbbbbbbbbbbbbbbbbb'')) 1000)] createCache))))
     + 40 \<le> 100"
    using T[THEN conjunct1] T[THEN conjunct2, THEN conjunct1]
    by (simp add: cache_eval)
  have 2: "   map (\<lambda>p. timestamp (snd p)) (cache (run JSON_stringify 100
      [(0, Set (js ''k1'') (JStr (js ''aaaaaaaaaaaaaaaaaaaaaaaaaaaaaaaaaaaaaa'')) 1000),
       (1, Set (js ''k2'') (JStr (js ''bbbbbbbbbbbbbbbbbbbbbbbbbbbbbbbbbbbbbb'')) 1000),
       (2, Get (js ''k1'')),
       (3, Set (js ''k3'') (JStr (js ''cccccccccccccccccccccccccccccccccccccc'')) 1000)] createCache))
     = [2, 3] \<and>
   last_access JSON_stringify (js ''k1'')
      [(0, Set (js ''k1'') (JStr (js ''aaaaaaaaaaaaaaaaaaaaaaaaaaaaaaaaaaaaaa'')) 1000),
       (1, Set (js ''k2'') (JStr (js ''bbbbbbbbbbbbbbbbbbbbbbbbbbbbbbbbbbbbbb'')) 1000),
       (2, Get (js ''k1'')),
       (3, Set (js ''k3'') (JStr (js ''cccccccccccccccccccccccccccccccccccccc'')) 1000)] = Some 2"
    using T[THEN conjunct2, THEN conjunct2, THEN conjunct2, THEN conjunct1]
    by (simp add: cache_eval)
  have 3: "   map fst (cache (run JSON_stringify 100
      [(0, Set (js ''k1'') (JStr (js ''aaaaaaaaaaaaaaaaaaaaaaaaaaaaaaaaaaaaaa'')) 1000),
       (1, Set (js ''k2'') (JStr (js ''bbbbbbbbbbbbbbbbbbbbbbbbbbbbbbbbbbbbbb'')) 1000),
       (3, Set (js ''k3'') (JStr (js ''cccccccccccccccccccccccccccccccccccccc'')) 1000)] createCache))
     = [js ''k2'', js ''k3''] \<and>
   fst (get 4 (js ''k1'') (run JSON_stringify 100
      [(0, Set (js ''k1'') (JStr (js ''aaaaaaaaaaaaaaaaaaaaaaaaaaaaaaaaaaaaaa'')) 1000),
       (1, Set (js ''k2'') (JStr (js ''bbbbbbbbbbbbbbbbbbbbbbbbbbbbbbbbbbbbbb'')) 1000),
       (3, Set (js ''k3'') (JStr (js ''cccccccccccccccccccccccccccccccccccccc'')) 1000)] createCache))
     = None \<and>
   fst (get 4 (js ''k2'') (run JSON_stringify 100
      [(0, Set (js ''k1'') (JStr (js ''aaaaaaaaaaaaaaaaaaaaaaaaaaaaaaaaaaaaaa'')) 1000),
       (1, Set (js ''k2'') (JStr (js ''bbbbbbbbbbbbbbbbbbbbbbbbbbbbbbbbbbbbbb'')) 1000),
       (3, Set (js ''k3'') (JStr (js ''cccccccccccccccccccccccccccccccccccccc'')) 1000)] createCache))
     = Some (JStr (js ''bbbbbbbbbbbbbbbbbbbbbbbbbbbbbbbbbbbbbb''))"
    using T[THEN conjunct2, THEN conjunct2, THEN conjunct2, THEN conjunct2, THEN conjunct1]
    by (simp add: cache_eval)
  have 4: "   map fst (cache (run JSON_stringify 100
      [(0, Set (js ''k1'') (JStr (js ''aaaaaaaaaaaaaaaaaaaaaaaaaaaaaaaaaaaaaa'')) 1000),
       (1, Set (js ''k2'') (JStr (js ''bbbbbbbbbbbbbbbbbbbbbbbbbbbbbbbbbbbbbb'')) 1000),
       (2, Get (js ''k1'')),
       (3, Set (js ''k3'') (JStr (js ''cccccccccccccccccccccccccccccccccccccc'')) 1000)] createCache))
     = [js ''k1'', js ''k3''] \<and>
   fst (get 4 (js ''k2'') (run JSON_stringify 100
      [(0, Set (js ''k1'') (JStr (js ''aaaaaaaaaaaaaaaaaaaaaaaaaaaaaaaaaaaaaa'')) 1000),
       (1, Set (js ''k2'') (JStr (js ''bbbbbbbbbbbbbbbbbbbbbbbbbbbbbbbbbbbbbb'')) 1000),
       (2, Get (js ''k1'')),
       (3, Set (js ''k3'') (JStr (js ''cccccccccccccccccccccccccccccccccccccc'')) 1000)] createCache))
     = None \<and>
   fst (get 4 (js ''k1'') (run JSON_stringify 100
      [(0, Set (js ''k1'') (JStr (js ''aaaaaaaaaaaaaaaaaaaaaaaaaaaaaaaaaaaaaa'')) 1000),
       (1, Set (js ''k2'') (JStr (js ''bbbbbbbbbbbbbbbbbbbbbbbbbbbbbbbbbbbbbb'')) 1000),
       (2, Get (js ''k1'')),
       (3, Set (js ''k3'') (JStr (js ''cccccccccccccccccccccccccccccccccccccc'')) 1000)] createCache))
     = Some (JStr (js ''aaaaaaaaaaaaaaaaaaaaaaaaaaaaaaaaaaaaaa''))"
    using T[THEN conjunct2, THEN conjunct2, THEN conjunct2, THEN conjunct2, THEN conjunct2]
      T[THEN conjunct2, THEN conjunct2, THEN conjunct1]
    by (simp add: cache_eval)
  from 1 2 3 4 show ?thesis by (elim conjE, intro conjI) assumption+
qed

section \<open>The cache key\<close>

lemma Map_get_map_of: "Map_get m k = map_of m k"
  by (induction m) auto

lemma Map_get_map_snd:
  "Map_get (map (\<lambda>p. (fst p, f (snd p))) m) k = map_option f (Map_get m k)"
  by (induction m) auto

lemma Map_get_cong_set:
  assumes "distinct (map fst o1)" "distinct (map fst o2)" "set o1 = set o2"
  shows "Map_get o1 = Map_get o2"
proof
  fix k
  from assms have "map_of o1 = map_of o2" by (simp add: map_of_inject_set)
  then show "Map_get o1 k = Map_get o2 k" by (simp add: Map_get_map_of)
qed

lemma sorted_keys_cong_set:
  assumes "distinct (map fst o1)" "distinct (map fst o2)" "set o1 = set o2"
  shows "sort (Object_keys o1) = sort (Object_keys o2)"
proof -
  have "set (map fst o1) = set (map fst o2)" using assms(3) by simp
  then show ?thesis
    unfolding Object_keys_def using assms(1,2)
    by (intro sorted_distinct_set_unique) simp_all
qed

lemma SerializeJSONObject_lookup:
  "Map_get o1 = Map_get o2 \<Longrightarrow>
   SerializeJSONProperty (Some ks) (JObj o1) = SerializeJSONProperty (Some ks) (JObj o2)"
  by (simp add: Map_get_map_snd)

lemma cache_key_text_stable:
  assumes "distinct (map fst o1)" "distinct (map fst o2)" "set o1 = set o2"
  shows "cache_key_text p q o1 = cache_key_text p q o2"
  unfolding cache_key_text_def
  using sorted_keys_cong_set[OF assms] SerializeJSONObject_lookup[OF Map_get_cong_set[OF assms]]
  by (simp del: SerializeJSONProperty.simps)

lemma b64_char_inj: "i < 64 \<Longrightarrow> j < 64 \<Longrightarrow> b64_char i = b64_char j \<Longrightarrow> i = j"
  unfolding b64_char_def by (simp split: if_splits)

lemma b64_char_not_pad: "i < 64 \<Longrightarrow> b64_char i \<noteq> 61"
  unfolding b64_char_def by (auto split: if_splits)

lemma dec_a: "(b::nat) < 256 \<Longrightarrow> 4 * (a div 4) + ((a mod 4) * 16 + b div 16) div 16 = a"
  by simp

lemma dec_b: "(b::nat) < 256 \<Longrightarrow> c < 256 \<Longrightarrow>
   (((a mod 4) * 16 + b div 16) mod 16) * 16 + ((b mod 16) * 4 + c div 64) div 4 = b"
  by (simp add: mod_mult2_eq div_mult2_eq)

lemma dec_c: "(c::nat) < 256 \<Longrightarrow> (((b mod 16) * 4 + c div 64) mod 4) * 64 + c mod 64 = c"
  by (simp add: mod_mult2_eq div_mult2_eq)

lemma sextet_bounds:
  fixes a b c :: nat
  assumes "a < 256" "b < 256" "c < 256"
  shows "a div 4 < 64" "(a mod 4) * 16 + b div 16 < 64" "(b mod 16) * 4 + c div 64 < 64"
    "c mod 64 < 64" "(b mod 16) * 4 < 64" "(a mod 4) * 16 < 64"
  using assms by simp_all

lemma b64_3_inj:
  assumes "a < 256" "b < 256" "c < 256" "a' < 256" "b' < 256" "c' < 256"
    and 1: "b64_char (a div 4) = b64_char (a' div 4)"
    and 2: "b64_char ((a mod 4) * 16 + b div 16) = b64_char ((a' mod 4) * 16 + b' div 16)"
    and 3: "b64_char ((b mod 16) * 4 + c div 64) = b64_char ((b' mod 16) * 4 + c' div 64)"
    and 4: "b64_char (c mod 64) = b64_char (c' mod 64)"
  shows "a = a' \<and> b = b' \<and> c = c'"
proof -
  have e1: "a div 4 = a' div 4"
    using 1 assms(1,4) by (elim b64_char_inj[rotated 2]) simp_all
  have e2: "(a mod 4) * 16 + b div 16 = (a' mod 4) * 16 + b' div 16"
    using 2 assms(1-6) by (elim b64_char_inj[rotated 2]) simp_all
  have e3: "(b mod 16) * 4 + c div 64 = (b' mod 16) * 4 + c' div 64"
    using 3 assms(1-6) by (elim b64_char_inj[rotated 2]) simp_all
  have e4: "c mod 64 = c' mod 64"
    using 4 by (elim b64_char_inj[rotated 2]) simp_all
  have "a = 4 * (a div 4) + ((a mod 4) * 16 + b div 16) div 16"
    using dec_a[OF assms(2), of a] by simp
  also have "\<dots> = 4 * (a' div 4) + ((a' mod 4) * 16 + b' div 16) div 16"
    by (simp only: e1 e2)
  also have "\<dots> = a'" by (rule dec_a[OF assms(5)])
  finally have A: "a = a'" .
  have "b = (((a mod 4) * 16 + b div 16) mod 16) * 16 + ((b mod 16) * 4 + c div 64) div 4"
    using dec_b[OF assms(2,3), of a] by simp
  also have "\<dots> = (((a' mod 4) * 16 + b' div 16) mod 16) * 16 + ((b' mod 16) * 4 + c' div 64) div 4"
    by (simp only: e2 e3)
  also have "\<dots> = b'" by (rule dec_b[OF assms(5,6)])
  finally have B: "b = b'" .
  have "c = (((b mod 16) * 4 + c div 64) mod 4) * 64 + c mod 64"
    using dec_c[OF assms(3), of b] by simp
  also have "\<dots> = (((b' mod 16) * 4 + c' div 64) mod 4) * 64 + c' mod 64"
    by (simp only: e3 e4)
  also have "\<dots> = c'" by (rule dec_c[OF assms(6)])
  finally have C: "c = c'" .
  from A B C show ?thesis by simp
qed

lemma b64_2_inj:
  assumes "a < 256" "b < 256" "a' < 256" "b' < 256"
    and 1: "b64_char (a div 4) = b64_char (a' div 4)"
    and 2: "b64_char ((a mod 4) * 16 + b div 16) = b64_char ((a' mod 4) * 16 + b' div 16)"
    and 3: "b64_char ((b mod 16) * 4) = b64_char ((b' mod 16) * 4)"
  shows "a = a' \<and> b = b'"
  using b64_3_inj[of a b 0 a' b' 0] assms by simp

lemma b64_1_inj:
  assumes "a < 256" "a' < 256"
    and 1: "b64_char (a div 4) = b64_char (a' div 4)"
    and 2: "b64_char ((a mod 4) * 16) = b64_char ((a' mod 4) * 16)"
  shows "a = a'"
  using b64_3_inj[of a 0 0 a' 0 0] assms by simp

lemma b64_inj:
  "list_all (\<lambda>u. u < 256) s \<Longrightarrow> list_all (\<lambda>u. u < 256) t \<Longrightarrow> b64 s = b64 t \<Longrightarrow> s = t"
proof (induction s arbitrary: t rule: b64.induct)
  case (1 a b c rest)
  show ?case
  proof (cases t rule: b64.cases)
    case (1 a' b' c' rest')
    with "1.prems" have "a = a' \<and> b = b' \<and> c = c'"
      by (intro b64_3_inj) simp_all
    moreover have "rest = rest'" using "1.prems" 1 by (intro "1.IH") simp_all
    ultimately show ?thesis using 1 by simp
  next
    case (2 a' b')
    with "1.prems" show ?thesis using b64_char_not_pad[of "c mod 64"] by simp
  next
    case (3 a')
    with "1.prems" show ?thesis using b64_char_not_pad[of "c mod 64"] by simp
  next
    case 4
    with "1.prems" show ?thesis by simp
  qed
next
  case (2 a b)
  show ?case
  proof (cases t rule: b64.cases)
    case (1 a' b' c' rest')
    with "2.prems" show ?thesis using b64_char_not_pad[of "c' mod 64"] by simp
  next
    case (2 a' b')
    with "2.prems" have "a = a' \<and> b = b'" by (intro b64_2_inj) simp_all
    with 2 show ?thesis by simp
  next
    case (3 a')
    with "2.prems" show ?thesis using b64_char_not_pad[of "(b mod 16) * 4"] by simp
  next
    case 4
    with "2.prems" show ?thesis by simp
  qed
next
  case (3 a)
  show ?case
  proof (cases t rule: b64.cases)
    case (1 a' b' c' rest')
    with "3.prems" show ?thesis using b64_char_not_pad[of "c' mod 64"] by simp
  next
    case (2 a' b')
    with "3.prems" show ?thesis using b64_char_not_pad[of "(b' mod 16) * 4"] by simp
  next
    case (3 a')
    with "3.prems" have "a = a'" by (intro b64_1_inj[of a a']) simp_all
    with 3 show ?thesis by simp
  next
    case 4
    with "3.prems" show ?thesis by simp
  qed
next
  case 4
  then show ?case by (cases t rule: b64.cases) simp_all
qed

lemma b64_take: "take (4 * n) (b64 s) = b64 (take (3 * n) s)"
proof (induction n arbitrary: s)
  case 0
  then show ?case by simp
next
  case (Suc n)
  have 4: "4 * Suc n = Suc (Suc (Suc (Suc (4 * n))))" and 3: "3 * Suc n = Suc (Suc (Suc (3 * n)))"
    by simp_all
  show ?case
  proof (cases s rule: b64.cases)
    case (1 a b c rest)
    then show ?thesis using Suc.IH[of rest] by (simp only: 4 3) simp
  next
    case (2 a b)
    then show ?thesis by (simp only: 4 3) simp
  next
    case (3 a)
    then show ?thesis by (simp only: 4 3) simp
  next
    case 4
    then show ?thesis by simp
  qed
qed

lemma b64_take_32_eq_iff:
  assumes "list_all (\<lambda>u. u < 256) s" "list_all (\<lambda>u. u < 256) t"
  shows "take 32 (b64 s) = take 32 (b64 t) \<longleftrightarrow> take 24 s = take 24 t"
proof -
  have "take 32 (b64 s) = b64 (take 24 s)" "take 32 (b64 t) = b64 (take 24 t)"
    using b64_take[of 8] by simp_all
  moreover have "list_all (\<lambda>u. u < 256) (take 24 s)" "list_all (\<lambda>u. u < 256) (take 24 t)"
    using assms by (auto simp: list_all_iff dest: in_set_takeD)
  ultimately show ?thesis using b64_inj by auto
qed


lemma bytes_iff: "(\<not> list_ex (\<lambda>u. u > 255) s) = list_all (\<lambda>u. u < (256::nat)) s"
  by (induction s) auto

lemma generateCacheKey_eq_iff:
  assumes "\<not> list_ex (\<lambda>u. u > 255) (cache_key_text p q o1)"
    and "\<not> list_ex (\<lambda>u. u > 255) (cache_key_text p q o2)"
  shows "(generateCacheKey p q o1 = generateCacheKey p q o2) =
         (take 24 (cache_key_text p q o1) = take 24 (cache_key_text p q o2))"
proof -
  have "list_all (\<lambda>u. u < 256) (cache_key_text p q o1)"
    and "list_all (\<lambda>u. u < 256) (cache_key_text p q o2)"
    using assms by (simp_all add: bytes_iff)
  then have "(take 32 (b64 (cache_key_text p q o1)) = take 32 (b64 (cache_key_text p q o2))) =
             (take 24 (cache_key_text p q o1) = take 24 (cache_key_text p q o2))"
    by (rule b64_take_32_eq_iff)
  with assms show ?thesis by (simp add: generateCacheKey_def btoa_def)
qed


text \<open>Evaluation of \<open>generateCacheKey\<close> on given inputs.\<close>

lemmas key_eval =
  generateCacheKey_def cache_key_text_def btoa_def b64_char_def Object_keys_def
  QuoteJSONString_def is_lead_def is_trail_def Number_toString_def digits.simps
  List.map_filter_def Let_def


text \<open>
  What holds of \<open>generateCacheKey\<close>. Its result does not depend on the order of the
  option keys: two option lists with distinct keys and the same key/value pairs give
  the same result. When no character of \<open>provider:prompt:optionsString\<close> is above 255,
  two option lists give the same key exactly when the first 24 characters of their
  texts agree. When such a character occurs, there is no key: \<open>generateCacheKey\<close> raises
  \<open>InvalidCharacterError\<close>.
\<close>

theorem generateCacheKey_stable_and_prefix:
  "(distinct (map fst o1) \<and> distinct (map fst o2) \<and> set o1 = set o2 \<longrightarrow>
      generateCacheKey p q o1 = generateCacheKey p q o2) \<and>
   (\<not> list_ex (\<lambda>u. u > 255) (cache_key_text p q o1) \<and>
    \<not> list_ex (\<lambda>u. u > 255) (cache_key_text p q o2) \<longrightarrow>
      (generateCacheKey p q o1 = generateCacheKey p q o2) =
      (take 24 (cache_key_text p q o1) = take 24 (cache_key_text p q o2))) \<and>
   (list_ex (\<lambda>u. u > 255) (cache_key_text p q o1) \<longrightarrow>
      generateCacheKey p q o1 = Inl InvalidCharacterError)"
proof (intro conjI impI)
  assume "distinct (map fst o1) \<and> distinct (map fst o2) \<and> set o1 = set o2"
  then have "cache_key_text p q o1 = cache_key_text p q o2"
    by (intro cache_key_text_stable) simp_all
  then show "generateCacheKey p q o1 = generateCacheKey p q o2"
    by (simp add: generateCacheKey_def)
next
  assume "\<not> list_ex (\<lambda>u. u > 255) (cache_key_text p q o1) \<and>
    \<not> list_ex (\<lambda>u. u > 255) (cache_key_text p q o2)"
  then show "(generateCacheKey p q o1 = generateCacheKey p q o2) =
      (take 24 (cache_key_text p q o1) = take 24 (cache_key_text p q o2))"
    by (intro generateCacheKey_eq_iff) simp_all
next
  assume "list_ex (\<lambda>u. u > 255) (cache_key_text p q o1)"
  then show "generateCacheKey p q o1 = Inl InvalidCharacterError"
    by (simp add: generateCacheKey_def btoa_def)
qed

theorem generateCacheKey_stable_and_prefix_instance:
  "generateCacheKey (js ''groq'') (js ''hi'') [(js ''model'', JStr (js ''m'')), (js ''n'', JNum 2)]
     = generateCacheKey (js ''groq'') (js ''hi'') [(js ''n'', JNum 2), (js ''model'', JStr (js ''m''))] \<and>
   generateCacheKey (js ''groq'') (js ''hi'') [(js ''n'', JNum 2)]
     \<noteq> generateCacheKey (js ''groq'') (js ''hi'') [(js ''n'', JNum 3)] \<and>
   generateCacheKey (js ''groq'') [8364] [] = Inl InvalidCharacterError"
  using
    generateCacheKey_stable_and_prefix[of "[(js ''model'', JStr (js ''m'')), (js ''n'', JNum 2)]"
      "[(js ''n'', JNum 2), (js ''model'', JStr (js ''m''))]" "js ''groq''" "js ''hi''"]
    generateCacheKey_stable_and_prefix[of "[(js ''n'', JNum 2)]" "[(js ''n'', JNum 3)]" "js ''groq''" "js ''hi''"]
    generateCacheKey_stable_and_prefix[of "[]" "[]" "js ''groq''" "[8364]"]
  by (auto simp: cache_key_text_def Object_keys_def QuoteJSONString_def is_lead_def is_trail_def
        Number_toString_def digits.simps List.map_filter_def Let_def)

text \<open>
  Claim C2, on the code. The key keeps the first 32 characters of the base64 text, that
  is the first 24 characters of \<open>provider:prompt:optionsString\<close>. With the provider
  \<open>openai\<close> and a prompt of 18 characters the options lie beyond them: the options
  \<open>{temperature: 1}\<close> and \<open>{temperature: 2}\<close> differ in the value of a key and have the
  same cache key, \<open>ai:\<close> followed by the base64 text of \<open>openai:Write a short poe\<close>.
\<close>

theorem C2_cache_key_collision:
  "Map_get [(js ''temperature'', JNum 1)] (js ''temperature'')
     \<noteq> Map_get [(js ''temperature'', JNum 2)] (js ''temperature'') \<and>
   generateCacheKey (js ''openai'') (js ''Write a short poem'') [(js ''temperature'', JNum 1)]
     = Inr (js ''ai:b3BlbmFpOldyaXRlIGEgc2hvcnQgcG9l'') \<and>
   generateCacheKey (js ''openai'') (js ''Write a short poem'') [(js ''temperature'', JNum 2)]
     = Inr (js ''ai:b3BlbmFpOldyaXRlIGEgc2hvcnQgcG9l'')"
  by (simp add: key_eval)

section \<open>The batch processor and the injected function\<close>

text \<open>Evaluation of the batch processor on given states.\<close>

lemmas batch_eval =
  createBatchProcessor_def setProcessor_def Object_assign_def addRequest_batch_def
  processQueue_def start_batch_def start_item_def settle_def settle_item_def resume_def
  getStatus_def Let_def


text \<open>
  The events of a batch processor: the calls of \<open>setProcessor\<close> and \<open>addRequest\<close>, the
  settling of the batch in flight, and the end of the wait between two batches.
\<close>

datatype batch_op =
  SetProcessor fn_obj | AddRequest int BatchRequest | Settle int | Resume int

fun batch_step :: "int \<Rightarrow> batch_op \<Rightarrow> batch_state \<Rightarrow> batch_state" where
  "batch_step batchSize (SetProcessor processor) st = setProcessor processor st"
| "batch_step batchSize (AddRequest now request) st = addRequest_batch batchSize now request st"
| "batch_step batchSize (Settle now) st = settle now st"
| "batch_step batchSize (Resume now) st = resume batchSize now st"

definition batch_run :: "int \<Rightarrow> batch_op list \<Rightarrow> batch_state \<Rightarrow> batch_state" where
  "batch_run batchSize ops st = fold (batch_step batchSize) ops st"

text \<open>
  No response is \<open>completed\<close>; and the invariant of every run: a call of
  \<open>processRequest\<close> is a call of the stub, and no response is \<open>completed\<close>.
\<close>

definition none_completed :: "batch_state \<Rightarrow> bool" where
  "none_completed st = list_all (\<lambda>p. status (snd p) \<noteq> completed) (results st)"

definition stub_inv :: "batch_state \<Rightarrow> bool" where
  "stub_inv st \<longleftrightarrow>
     call (processRequest st) = call (processRequest createBatchProcessor) \<and> none_completed st"

lemma list_all_Map_set:
  "list_all P m \<Longrightarrow> P (k, v) \<Longrightarrow> list_all P (Map_set k v m)"
  by (induction m) auto

lemma list_all_Map_get:
  "list_all P m \<Longrightarrow> Map_get m k = Some v \<Longrightarrow> P (k, v)"
  by (induction m) (auto split: if_splits)

lemma start_item_inv: "stub_inv st \<Longrightarrow> stub_inv (start_item now request st)"
  by (auto simp: stub_inv_def none_completed_def start_item_def list_all_Map_set
      split: option.splits)

lemma settle_item_inv: "stub_inv st \<Longrightarrow> stub_inv (settle_item now request st)"
  by (auto simp: stub_inv_def none_completed_def settle_item_def createBatchProcessor_def
      list_all_Map_set split: option.splits)

lemma fold_inv:
  "(\<And>x s. P s \<Longrightarrow> P (f x s)) \<Longrightarrow> P st \<Longrightarrow> P (fold f xs st)"
  by (induction xs arbitrary: st) auto

lemma stub_inv_fields:
  "stub_inv st \<Longrightarrow> stub_inv (st\<lparr>queue := q\<rparr>)"
  "stub_inv st \<Longrightarrow> stub_inv (st\<lparr>inflight := b\<rparr>)"
  "stub_inv st \<Longrightarrow> stub_inv (st\<lparr>isProcessing := c\<rparr>)"
  by (simp_all add: stub_inv_def none_completed_def)

lemma start_batch_inv: "stub_inv st \<Longrightarrow> stub_inv (start_batch batchSize now st)"
  unfolding start_batch_def Let_def
  by (intro fold_inv[where P = stub_inv] start_item_inv) (simp_all add: stub_inv_fields)

lemma batch_step_inv: "stub_inv st \<Longrightarrow> stub_inv (batch_step batchSize x st)"
proof (cases x)
  case (SetProcessor processor)
  assume "stub_inv st"
  then show ?thesis
    using SetProcessor by (simp add: stub_inv_def none_completed_def setProcessor_def Object_assign_def)
next
  case (AddRequest now request)
  assume inv: "stub_inv st"
  let ?r = "\<lparr>resp_id = req_id request, status = pending, result = None,
             error = None, startTime = None, endTime = None\<rparr>"
  have 1: "stub_inv (st\<lparr>results := Map_set (req_id request) ?r (results st)\<rparr>)"
    using inv by (simp add: stub_inv_def none_completed_def list_all_Map_set)
  show ?thesis
    using AddRequest 1
    by (simp add: addRequest_batch_def processQueue_def Let_def start_batch_inv stub_inv_fields)
next
  case (Settle now)
  assume inv: "stub_inv st"
  have "stub_inv (fold (settle_item now) (inflight st) st)"
    using inv by (intro fold_inv[where P = stub_inv] settle_item_inv)
  then show ?thesis using Settle by (simp add: settle_def Let_def stub_inv_fields)
next
  case (Resume now)
  assume "stub_inv st"
  then show ?thesis using Resume by (simp add: resume_def start_batch_inv stub_inv_fields)
qed

lemma batch_run_inv: "stub_inv st \<Longrightarrow> stub_inv (batch_run batchSize ops st)"
  unfolding batch_run_def by (intro fold_inv[where P = stub_inv] batch_step_inv)

lemma batch_run_none_completed:
  "none_completed (batch_run batchSize ops createBatchProcessor)"
proof -
  have "stub_inv createBatchProcessor"
    by (simp add: stub_inv_def none_completed_def createBatchProcessor_def)
  then have "stub_inv (batch_run batchSize ops createBatchProcessor)" by (rule batch_run_inv)
  then show ?thesis by (simp add: stub_inv_def)
qed

text \<open>
  Claim C1, on the code. \<open>setProcessor\<close> copies properties onto \<open>processRequest\<close> and
  leaves what a call of it does unchanged, in every state. So after
  \<open>setProcessor\<close> of a function that resolves with \<open>ok\<close>, a submitted item is started
  and then settles as \<open>failed\<close> with the message of the stub, not as \<open>completed\<close> with
  \<open>ok\<close>; and after any sequence of events from a new batch processor, whatever was
  injected, no response is \<open>completed\<close>.
\<close>

theorem C1_injected_processor_is_never_called:
  "call (processRequest (setProcessor processor st)) = call (processRequest st) \<and>
   getStatus (js ''a'')
     (settle 1
        (addRequest_batch 5 0 \<lparr>req_id = js ''a'', priority = None, prompt = js ''p''\<rparr>
           (setProcessor \<lparr>call = (\<lambda>request. Inr (js ''ok'')), props = []\<rparr>
              createBatchProcessor)))
     = Some \<lparr>resp_id = js ''a'', status = failed, result = None,
              error = Some (js ''processRequest function must be injected''),
              startTime = Some 0, endTime = Some 1\<rparr> \<and>
   none_completed (batch_run batchSize ops createBatchProcessor)"
proof (intro conjI)
  show "call (processRequest (setProcessor processor st)) = call (processRequest st)"
    by (simp add: setProcessor_def Object_assign_def)
  show "getStatus (js ''a'')
     (settle 1
        (addRequest_batch 5 0 \<lparr>req_id = js ''a'', priority = None, prompt = js ''p''\<rparr>
           (setProcessor \<lparr>call = (\<lambda>request. Inr (js ''ok'')), props = []\<rparr>
              createBatchProcessor)))
     = Some \<lparr>resp_id = js ''a'', status = failed, result = None,
              error = Some (js ''processRequest function must be injected''),
              startTime = Some 0, endTime = Some 1\<rparr>"
    by (simp add: batch_eval)
  show "none_completed (batch_run batchSize ops createBatchProcessor)"
    by (rule batch_run_none_completed)
qed

definition throws_for_x :: fn_obj where
  "throws_for_x =
     \<lparr>call = (\<lambda>request. if req_id request = js ''x'' then Inl (Error (js ''boom''))
                          else Inr (js ''ok'')),
      props = []\<rparr>"

definition after_two_batches :: batch_state where
  "after_two_batches =
     settle 104
       (resume 5 103
          (settle 3
             (addRequest_batch 5 2 \<lparr>req_id = js ''y'', priority = None, prompt = js ''p''\<rparr>
                (addRequest_batch 5 1 \<lparr>req_id = js ''x'', priority = None, prompt = js ''p''\<rparr>
                   (addRequest_batch 5 0 \<lparr>req_id = js ''a'', priority = None, prompt = js ''p''\<rparr>
                      (setProcessor throws_for_x createBatchProcessor))))))"


text \<open>
  Claim C9, on the code. After both batches have settled, \<open>x\<close> is \<open>failed\<close>, and so is
  its sibling \<open>y\<close>, for which the injected function resolves: both carry the message of
  the stub. The drain did continue to the second batch and ended with an empty queue.
\<close>

theorem C9_siblings_fail_too:
  "map_option status (getStatus (js ''x'') after_two_batches) = Some failed \<and>
   map_option error (getStatus (js ''x'') after_two_batches)
     = Some (Some (js ''processRequest function must be injected'')) \<and>
   getStatus (js ''y'') after_two_batches
     = Some \<lparr>resp_id = js ''y'', status = failed, result = None,
              error = Some (js ''processRequest function must be injected''),
              startTime = Some 103, endTime = Some 104\<rparr> \<and>
   queue after_two_batches = [] \<and> isProcessing after_two_batches = False"
  by (simp add: after_two_batches_def throws_for_x_def batch_eval)

end
